theory Spec2Isabelle
  imports Main "HOL-Library.Sublist"
begin

section \<open>JavaScript string helpers used by the stores\<close>

text \<open>
  Strings are lists of characters. Only ASCII path separators matter below, so the
  difference between UTF-16 code units and bytes plays no role.
\<close>

text \<open>\<^verbatim>\<open>s.startsWith(p)\<close>\<close>

fun startsWith :: "string \<Rightarrow> string \<Rightarrow> bool" where
  "startsWith s [] = True"
| "startsWith [] (p # ps) = False"
| "startsWith (c # cs) (p # ps) = (c = p \<and> startsWith cs ps)"

text \<open>
  \<^verbatim>\<open>s.split('/')\<close>: the pieces between slashes, empty pieces included. The
  accumulator holds the piece being read.
\<close>

fun split_acc :: "string \<Rightarrow> string \<Rightarrow> string list" where
  "split_acc acc [] = [acc]"
| "split_acc acc (c # cs) =
     (if c = CHR ''/'' then acc # split_acc [] cs else split_acc (acc @ [c]) cs)"

definition split_slash :: "string \<Rightarrow> string list" where
  "split_slash s = split_acc [] s"

text \<open>\<^verbatim>\<open>s.split('/').filter(Boolean)\<close>: the empty string is the only falsy piece.\<close>

definition path_parts :: "string \<Rightarrow> string list" where
  "path_parts s = filter (\<lambda>p. p \<noteq> []) (split_slash s)"

text \<open>\<^verbatim>\<open>s.replace(/^\//, '')\<close>: drops one leading slash.\<close>

fun strip_leading_slash :: "string \<Rightarrow> string" where
  "strip_leading_slash [] = []"
| "strip_leading_slash (c # cs) = (if c = CHR ''/'' then cs else c # cs)"

text \<open>
  \<^verbatim>\<open>nodePath.dirname\<close> (POSIX): the scan runs from the last index down to index 1
  and stops at the first slash met after a non-slash character.
\<close>

fun dirname_scan :: "string \<Rightarrow> nat \<Rightarrow> bool \<Rightarrow> nat option" where
  "dirname_scan path 0 matchedSlash = None"
| "dirname_scan path (Suc i) matchedSlash =
     (if path ! Suc i = CHR ''/''
      then (if \<not> matchedSlash then Some (Suc i) else dirname_scan path i matchedSlash)
      else dirname_scan path i False)"

definition dirname :: "string \<Rightarrow> string" where
  "dirname path =
     (if path = [] then ''.''
      else (let hasRoot = (hd path = CHR ''/'') in
        case dirname_scan path (length path - 1) True of
          None \<Rightarrow> (if hasRoot then ''/'' else ''.'')
        | Some e \<Rightarrow> (if hasRoot \<and> e = 1 then ''//'' else take e path)))"

text \<open>
  Modelled from the spec: the constant \<^verbatim>\<open>WORK_DIR\<close> is imported from
  \<^verbatim>\<open>~/utils/constants\<close>, which is not among the sources; the spec names the work
  directory \<^verbatim>\<open>/project\<close>.
\<close>

definition WORK_DIR :: string where
  "WORK_DIR = ''/project''"

section \<open>FilesStore\<close>

datatype Dirent = File (content: string) (isBinary: bool) | Folder

type_synonym FileMap = "string \<rightharpoonup> Dirent"

text \<open>
  The private fields \<^verbatim>\<open>#size\<close> and \<^verbatim>\<open>#modifiedFiles\<close>, the \<^verbatim>\<open>files\<close> map store and
  the entry of the browser's local storage under \<^verbatim>\<open>STORAGE_KEY\<close>.
\<close>

record FilesStore =
  fsize :: nat
  modifiedFiles :: "string \<rightharpoonup> string"
  files :: FileMap
  storage :: "FileMap option"

definition emptyFilesStore :: FilesStore where
  "emptyFilesStore = \<lparr>fsize = 0, modifiedFiles = Map.empty, files = Map.empty, storage = None\<rparr>"

definition getFile :: "FilesStore \<Rightarrow> string \<Rightarrow> Dirent option" where
  "getFile st filePath =
     (case files st filePath of
        Some (File c b) \<Rightarrow> Some (File c b)
      | _ \<Rightarrow> None)"

definition resetFileModifications :: "FilesStore \<Rightarrow> FilesStore" where
  "resetFileModifications st = st\<lparr>modifiedFiles := Map.empty\<rparr>"

text \<open>\<^verbatim>\<open>#persistToStorage\<close> in the browser: the whole map is written under the key.\<close>

definition persistToStorage :: "FilesStore \<Rightarrow> FilesStore" where
  "persistToStorage st = st\<lparr>storage := Some (files st)\<rparr>"

definition saveFile :: "FilesStore \<Rightarrow> string \<Rightarrow> string \<Rightarrow> FilesStore" where
  "saveFile st filePath newContent =
     (let oldContent = map_option content (getFile st filePath);
          st1 = (if modifiedFiles st filePath = None \<and> oldContent \<noteq> None
                 then st\<lparr>modifiedFiles := (modifiedFiles st)(filePath \<mapsto> the oldContent)\<rparr>
                 else st);
          st2 = st1\<lparr>files := (files st1)(filePath \<mapsto> File newContent False)\<rparr>
      in persistToStorage st2)"

text \<open>The loop of \<^verbatim>\<open>#ensureFolderExists\<close> over the parts, with \<^verbatim>\<open>currentPath\<close>.\<close>

fun ensureFolderLoop :: "string \<Rightarrow> string list \<Rightarrow> FileMap \<Rightarrow> FileMap" where
  "ensureFolderLoop currentPath [] fm = fm"
| "ensureFolderLoop currentPath (part # parts) fm =
     (let currentPath' = (if currentPath \<noteq> [] then currentPath @ ''/'' @ part else ''/'' @ part)
      in ensureFolderLoop currentPath' parts
           (if fm currentPath' = None then fm(currentPath' \<mapsto> Folder) else fm))"

definition ensureFolderExists :: "FilesStore \<Rightarrow> string \<Rightarrow> FilesStore" where
  "ensureFolderExists st folderPath =
     st\<lparr>files := ensureFolderLoop [] (path_parts folderPath) (files st)\<rparr>"

definition normalizePath :: "string \<Rightarrow> string" where
  "normalizePath filePath =
     (if startsWith filePath WORK_DIR then filePath else WORK_DIR @ ''/'' @ filePath)"

text \<open>A run of writes, oldest first.\<close>

definition saveAll :: "FilesStore \<Rightarrow> (string \<times> string) list \<Rightarrow> FilesStore" where
  "saveAll st ws = foldl (\<lambda>st (p, c). saveFile st p c) st ws"

definition addFile :: "FilesStore \<Rightarrow> string \<Rightarrow> string \<Rightarrow> FilesStore" where
  "addFile st filePath newContent =
     (let normalizedPath = normalizePath filePath;
          folder = dirname normalizedPath;
          st1 = (if folder \<noteq> ''.'' \<and> folder \<noteq> WORK_DIR then ensureFolderExists st folder else st);
          st2 = st1\<lparr>files := (files st1)(normalizedPath \<mapsto> File newContent False)\<rparr>;
          st3 = st2\<lparr>fsize := fsize st2 + 1\<rparr>
      in persistToStorage st3)"

section \<open>The sandbox store (e2bStore)\<close>

record E2BState =
  apiKey :: string
  isConnected :: bool
  isConnecting :: bool
  sandboxId :: "string option"
  error :: "string option"
  isSyncing :: bool
  autoCreateTriggered :: bool

definition initialState :: E2BState where
  "initialState =
     \<lparr>apiKey = [], isConnected = False, isConnecting = False, sandboxId = None,
      error = None, isSyncing = False, autoCreateTriggered = False\<rparr>"

text \<open>
  An asynchronous callback is an oracle: called with its arguments it gives the outcome
  its promise will have, a rejection (\<open>Inl\<close> with the error) or a fulfilment (\<open>Inr\<close>
  with the value). When that promise settles is not decided by the store: whoever awaits
  it goes on in a later step of its own.
\<close>

type_synonym 'a async = "string + 'a"

text \<open>
  The promise a caller of \<^verbatim>\<open>writeFile\<close>, \<^verbatim>\<open>makeDirectory\<close> or \<^verbatim>\<open>runCommand\<close> holds:
  the promise of the installed callback, with the outcome it will have; the promise
  whose \<^verbatim>\<open>resolve\<close>/\<^verbatim>\<open>reject\<close> pair was put into the queue, named by a number; or
  the promise of an \<^verbatim>\<open>async\<close> function that returned at once. \<^verbatim>\<open>runCommand\<close> yields
  no value; its promises carry \<open>True\<close>, which no caller reads.
\<close>

datatype promise = FromCallback "bool async" | Queued nat | Immediate bool

datatype OpType = OpWriteFile | OpMakeDirectory | OpRunCommand

record PendingOperation =
  op_type :: OpType
  op_path :: "string option"
  op_content :: "string option"
  op_command :: "string option"
  op_promise :: nat

text \<open>How a queued promise was settled: \<^verbatim>\<open>op.resolve(result)\<close> or \<^verbatim>\<open>op.reject(error)\<close>.\<close>

datatype settlement = Resolved bool | RejectedWith string

text \<open>A call that reached an installed sandbox callback.\<close>

datatype sandbox_call =
    CallWriteFile string string
  | CallMakeDirectory string
  | CallRunCommand string

record Callbacks =
  cb_writeFile :: "string \<Rightarrow> string \<Rightarrow> bool async"
  cb_makeDirectory :: "string \<Rightarrow> bool async"
  cb_runCommand :: "string \<Rightarrow> unit async"
  cb_sendTerminalInput :: "string \<Rightarrow> string \<Rightarrow> unit async"
  cb_createSandbox :: "unit \<Rightarrow> string async"
  cb_getActiveTerminalId :: "string option"

text \<open>
  The module-level variables of the store. \<^verbatim>\<open>sandboxInstance\<close> is only ever assigned
  \<^verbatim>\<open>null\<close> and is left out. \<^verbatim>\<open>awaitedCall\<close> is the place where the loop of
  \<^verbatim>\<open>processQueue\<close> stands while it is suspended: the operation whose callback it has
  called and awaits, with the outcome of that call. The last three fields are
  observations, not variables of the source: the next unused promise number, the
  settlements of queued promises in the order they happened, and the calls that reached
  a callback in the order they happened.
\<close>

record E2BStore =
  e2bState :: E2BState
  terminalSendInput :: "(string \<Rightarrow> string \<Rightarrow> unit async) option"
  fileWriteCallback :: "(string \<Rightarrow> string \<Rightarrow> bool async) option"
  makeDirectoryCallback :: "(string \<Rightarrow> bool async) option"
  runCommandCallback :: "(string \<Rightarrow> unit async) option"
  createSandboxCallback :: "(unit \<Rightarrow> string async) option"
  activeTerminalId :: "string option"
  pendingOperations :: "PendingOperation list"
  isProcessingQueue :: bool
  awaitedCall :: "(PendingOperation \<times> bool async) option"
  nextPromise :: nat
  settlements :: "(nat \<times> settlement) list"
  calls :: "sandbox_call list"

definition initialE2BStore :: E2BStore where
  "initialE2BStore =
     \<lparr>e2bState = initialState, terminalSendInput = None, fileWriteCallback = None,
      makeDirectoryCallback = None, runCommandCallback = None, createSandboxCallback = None,
      activeTerminalId = None, pendingOperations = [], isProcessingQueue = False,
      awaitedCall = None, nextPromise = 0, settlements = [], calls = []\<rparr>"

definition setConnected :: "E2BStore \<Rightarrow> bool \<Rightarrow> string option \<Rightarrow> E2BStore" where
  "setConnected s connected sid =
     (let s1 = s\<lparr>e2bState := (e2bState s)\<lparr>isConnected := connected\<rparr>\<rparr>;
          s2 = s1\<lparr>e2bState := (e2bState s1)\<lparr>sandboxId := sid\<rparr>\<rparr>
      in s2\<lparr>e2bState := (e2bState s2)\<lparr>isConnecting := False\<rparr>\<rparr>)"

text \<open>The call with one argument: the parameter \<^verbatim>\<open>sandboxId\<close> defaults to \<^verbatim>\<open>null\<close>.\<close>

definition setConnected_default :: "E2BStore \<Rightarrow> bool \<Rightarrow> E2BStore" where
  "setConnected_default s connected = setConnected s connected None"

definition setConnecting :: "E2BStore \<Rightarrow> bool \<Rightarrow> E2BStore" where
  "setConnecting s connecting = s\<lparr>e2bState := (e2bState s)\<lparr>isConnecting := connecting\<rparr>\<rparr>"

definition setError :: "E2BStore \<Rightarrow> string option \<Rightarrow> E2BStore" where
  "setError s e = s\<lparr>e2bState := (e2bState s)\<lparr>error := e\<rparr>\<rparr>"

text \<open>JavaScript truthiness of an optional string: defined and not empty.\<close>

definition truthy :: "string option \<Rightarrow> bool" where
  "truthy x = (case x of None \<Rightarrow> False | Some v \<Rightarrow> v \<noteq> [])"

text \<open>
  The \<^verbatim>\<open>switch\<close> of \<^verbatim>\<open>processQueue\<close> for one operation, up to the \<^verbatim>\<open>await\<close>: the
  callback variable is read at this moment; when it is set and the operation carries
  its arguments, the callback is called, and the result is the call with the outcome it
  will have. Otherwise nothing is called and \<^verbatim>\<open>result\<close> is \<^verbatim>\<open>false\<close>. After
  \<^verbatim>\<open>runCommandCallback\<close> has fulfilled, \<^verbatim>\<open>result\<close> is \<^verbatim>\<open>true\<close>.
\<close>

definition queuedCall :: "E2BStore \<Rightarrow> PendingOperation \<Rightarrow> (sandbox_call \<times> bool async) option" where
  "queuedCall s op =
     (case op_type op of
        OpWriteFile \<Rightarrow>
          (case fileWriteCallback s of
             Some f \<Rightarrow>
               if truthy (op_path op) \<and> op_content op \<noteq> None
               then Some (CallWriteFile (the (op_path op)) (the (op_content op)),
                          f (the (op_path op)) (the (op_content op)))
               else None
           | None \<Rightarrow> None)
      | OpMakeDirectory \<Rightarrow>
          (case makeDirectoryCallback s of
             Some f \<Rightarrow>
               if truthy (op_path op)
               then Some (CallMakeDirectory (the (op_path op)), f (the (op_path op)))
               else None
           | None \<Rightarrow> None)
      | OpRunCommand \<Rightarrow>
          (case runCommandCallback s of
             Some f \<Rightarrow>
               if truthy (op_command op)
               then Some (CallRunCommand (the (op_command op)),
                          (case f (the (op_command op)) of Inl e \<Rightarrow> Inl e | Inr u \<Rightarrow> Inr True))
               else None
           | None \<Rightarrow> None))"

text \<open>\<^verbatim>\<open>op.resolve(result)\<close> after a fulfilled call, \<^verbatim>\<open>op.reject(error)\<close> in the \<^verbatim>\<open>catch\<close>.\<close>

definition settleQueued :: "PendingOperation \<Rightarrow> bool async \<Rightarrow> nat \<times> settlement" where
  "settleQueued op r =
     (op_promise op, (case r of Inl e \<Rightarrow> RejectedWith e | Inr b \<Rightarrow> Resolved b))"

text \<open>
  The \<^verbatim>\<open>while\<close> loop of \<^verbatim>\<open>processQueue\<close>, run until it is suspended or over. Each
  round shifts one operation out of the queue. A round that calls a callback stops at
  the \<^verbatim>\<open>await\<close>: the loop is suspended with the rest still queued. A round that calls
  nothing resolves the promise with \<^verbatim>\<open>false\<close> and the loop goes on at once. When the
  queue is empty the flag is cleared.
\<close>

function drainLoop :: "E2BStore \<Rightarrow> E2BStore" where
  "drainLoop s =
     (case pendingOperations s of
        [] \<Rightarrow> s\<lparr>isProcessingQueue := False\<rparr>
      | op # rest \<Rightarrow>
          (case queuedCall s op of
             Some (c, r) \<Rightarrow>
               s\<lparr>pendingOperations := rest, calls := calls s @ [c], awaitedCall := Some (op, r)\<rparr>
           | None \<Rightarrow>
               drainLoop (s\<lparr>pendingOperations := rest,
                             settlements := settlements s @ [(op_promise op, Resolved False)]\<rparr>)))"
  by pat_completeness auto
termination
  by (relation "measure (\<lambda>s. length (pendingOperations s))") auto

declare drainLoop.simps [simp del]

text \<open>
  The awaited call settles and the suspended loop goes on: the promise of the operation
  is resolved or rejected, and the loop runs its next rounds, reading the callback
  variables as they are now.
\<close>

definition resumeQueue :: "E2BStore \<Rightarrow> E2BStore" where
  "resumeQueue s =
     (case awaitedCall s of
        None \<Rightarrow> s
      | Some (op, r) \<Rightarrow>
          drainLoop (s\<lparr>awaitedCall := None, settlements := settlements s @ [settleQueued op r]\<rparr>))"

text \<open>
  \<^verbatim>\<open>processQueue\<close> as far as it runs inside the call: it is \<^verbatim>\<open>async\<close> and nobody
  awaits it, so the caller gets control back at the first \<^verbatim>\<open>await\<close>.
\<close>

definition processQueue :: "E2BStore \<Rightarrow> E2BStore" where
  "processQueue s =
     (if isProcessingQueue s \<or> pendingOperations s = [] then s
      else if fileWriteCallback s = None \<or> makeDirectoryCallback s = None then s
      else drainLoop (s\<lparr>isProcessingQueue := True\<rparr>))"

definition registerSandboxCallbacks :: "E2BStore \<Rightarrow> Callbacks \<Rightarrow> E2BStore" where
  "registerSandboxCallbacks s cbs =
     processQueue
       (s\<lparr>fileWriteCallback := Some (cb_writeFile cbs),
          makeDirectoryCallback := Some (cb_makeDirectory cbs),
          runCommandCallback := Some (cb_runCommand cbs),
          terminalSendInput := Some (cb_sendTerminalInput cbs),
          createSandboxCallback := Some (cb_createSandbox cbs),
          activeTerminalId := cb_getActiveTerminalId cbs\<rparr>)"

text \<open>Appending a queued operation; the caller gets the number of its promise.\<close>

definition enqueue :: "E2BStore \<Rightarrow> OpType \<Rightarrow> string option \<Rightarrow> string option \<Rightarrow> string option
    \<Rightarrow> E2BStore \<times> nat" where
  "enqueue s t p c cmd =
     (let n = nextPromise s in
      (s\<lparr>pendingOperations := pendingOperations s @
            [\<lparr>op_type = t, op_path = p, op_content = c, op_command = cmd, op_promise = n\<rparr>],
         nextPromise := Suc n\<rparr>, n))"

definition writeFile :: "E2BStore \<Rightarrow> string \<Rightarrow> string \<Rightarrow> E2BStore \<times> promise" where
  "writeFile s p c =
     (case fileWriteCallback s of
        Some f \<Rightarrow> (s\<lparr>calls := calls s @ [CallWriteFile p c]\<rparr>, FromCallback (f p c))
      | None \<Rightarrow>
          if isConnecting (e2bState s) \<or> isConnected (e2bState s)
          then (case enqueue s OpWriteFile (Some p) (Some c) None of (s1, n) \<Rightarrow> (s1, Queued n))
          else (s, Immediate False))"

definition makeDirectory :: "E2BStore \<Rightarrow> string \<Rightarrow> E2BStore \<times> promise" where
  "makeDirectory s p =
     (case makeDirectoryCallback s of
        Some f \<Rightarrow> (s\<lparr>calls := calls s @ [CallMakeDirectory p]\<rparr>, FromCallback (f p))
      | None \<Rightarrow>
          if isConnecting (e2bState s) \<or> isConnected (e2bState s)
          then (case enqueue s OpMakeDirectory (Some p) None None of (s1, n) \<Rightarrow> (s1, Queued n))
          else (s, Immediate False))"

definition runCommand :: "E2BStore \<Rightarrow> string \<Rightarrow> E2BStore \<times> promise" where
  "runCommand s cmd =
     (case runCommandCallback s of
        Some f \<Rightarrow>
          (s\<lparr>calls := calls s @ [CallRunCommand cmd]\<rparr>,
           FromCallback (case f cmd of Inl e \<Rightarrow> Inl e | Inr u \<Rightarrow> Inr True))
      | None \<Rightarrow>
          if isConnecting (e2bState s) \<or> isConnected (e2bState s)
          then (case enqueue s OpRunCommand None None (Some cmd) of (s1, n) \<Rightarrow> (s1, Queued n))
          else (s, Immediate True))"

definition isReady :: "E2BStore \<Rightarrow> bool" where
  "isReady s =
     ((isConnected (e2bState s) \<and> fileWriteCallback s \<noteq> None) \<or> isConnecting (e2bState s))"

text \<open>
  What an \<^verbatim>\<open>await\<close> of the promise gives when the waiting function is resumed, and
  \<open>None\<close> while it cannot be resumed. A queued promise is settled once the queue has
  resolved or rejected it; the first settlement counts. The promise of a callback has
  the outcome of the call; the step that resumes the waiting function is the moment it
  settles.
\<close>

definition outcome :: "E2BStore \<Rightarrow> promise \<Rightarrow> bool async option" where
  "outcome s pr =
     (case pr of
        FromCallback r \<Rightarrow> Some r
      | Immediate b \<Rightarrow> Some (Inr b)
      | Queued n \<Rightarrow>
          (case map_of (settlements s) n of
             None \<Rightarrow> None
           | Some (Resolved b) \<Rightarrow> Some (Inr b)
           | Some (RejectedWith e) \<Rightarrow> Some (Inl e)))"

text \<open>The loop of \<^verbatim>\<open>reset\<close>: every queued operation is shifted out and rejected.\<close>

function rejectLoop :: "E2BStore \<Rightarrow> E2BStore" where
  "rejectLoop s =
     (case pendingOperations s of
        [] \<Rightarrow> s
      | op # rest \<Rightarrow>
          rejectLoop (s\<lparr>pendingOperations := rest,
                        settlements := settlements s @
                          [(op_promise op, RejectedWith ''E2B sandbox reset'')]\<rparr>))"
  by pat_completeness auto
termination
  by (relation "measure (\<lambda>s. length (pendingOperations s))") auto

declare rejectLoop.simps [simp del]

definition reset :: "E2BStore \<Rightarrow> E2BStore" where
  "reset s =
     rejectLoop
       (s\<lparr>e2bState := initialState,
          terminalSendInput := None,
          fileWriteCallback := None,
          makeDirectoryCallback := None,
          runCommandCallback := None,
          createSandboxCallback := None,
          activeTerminalId := None\<rparr>)"

text \<open>
  What can happen to the store, one event at a time: the component that owns the
  sandbox reports the connection, registers its callbacks or resets the store; the call
  awaited by the loop of \<^verbatim>\<open>processQueue\<close> settles; or some caller writes a file, makes
  a directory or runs a command.
\<close>

datatype sandbox_event =
    SbSetConnecting bool
  | SbSetConnected bool "string option"
  | SbRegister Callbacks
  | SbReset
  | SbSettle
  | SbWriteFile string string
  | SbMakeDirectory string
  | SbRunCommand string

fun sandboxStep :: "E2BStore \<Rightarrow> sandbox_event \<Rightarrow> E2BStore" where
  "sandboxStep s (SbSetConnecting b) = setConnecting s b"
| "sandboxStep s (SbSetConnected b sid) = setConnected s b sid"
| "sandboxStep s (SbRegister cbs) = registerSandboxCallbacks s cbs"
| "sandboxStep s SbReset = reset s"
| "sandboxStep s SbSettle = resumeQueue s"
| "sandboxStep s (SbWriteFile p c) = fst (writeFile s p c)"
| "sandboxStep s (SbMakeDirectory p) = fst (makeDirectory s p)"
| "sandboxStep s (SbRunCommand c) = fst (runCommand s c)"

definition sandboxRun :: "sandbox_event list \<Rightarrow> E2BStore" where
  "sandboxRun evs = foldl sandboxStep initialE2BStore evs"

text \<open>
  What draining the queue does with one queued operation, said without the loop: the
  call that reaches the implementation (none when the path or command is missing or
  empty, or the content is missing), and how the operation's promise is settled.
\<close>

definition hasArguments :: "PendingOperation \<Rightarrow> bool" where
  "hasArguments op =
     (case op_type op of
        OpWriteFile \<Rightarrow> truthy (op_path op) \<and> op_content op \<noteq> None
      | OpMakeDirectory \<Rightarrow> truthy (op_path op)
      | OpRunCommand \<Rightarrow> truthy (op_command op))"

definition drainedCalls :: "PendingOperation \<Rightarrow> sandbox_call list" where
  "drainedCalls op =
     (if hasArguments op
      then (case op_type op of
              OpWriteFile \<Rightarrow> [CallWriteFile (the (op_path op)) (the (op_content op))]
            | OpMakeDirectory \<Rightarrow> [CallMakeDirectory (the (op_path op))]
            | OpRunCommand \<Rightarrow> [CallRunCommand (the (op_command op))])
      else [])"

definition drainedSettlement :: "Callbacks \<Rightarrow> PendingOperation \<Rightarrow> settlement" where
  "drainedSettlement cbs op =
     (if hasArguments op
      then (case op_type op of
              OpWriteFile \<Rightarrow>
                (case cb_writeFile cbs (the (op_path op)) (the (op_content op)) of
                   Inl e \<Rightarrow> RejectedWith e | Inr b \<Rightarrow> Resolved b)
            | OpMakeDirectory \<Rightarrow>
                (case cb_makeDirectory cbs (the (op_path op)) of
                   Inl e \<Rightarrow> RejectedWith e | Inr b \<Rightarrow> Resolved b)
            | OpRunCommand \<Rightarrow>
                (case cb_runCommand cbs (the (op_command op)) of
                   Inl e \<Rightarrow> RejectedWith e | Inr u \<Rightarrow> Resolved True))
      else Resolved False)"

text \<open>
  The settlement still owed to the operation whose call the loop awaits, if there is
  one.
\<close>

definition owedSettlement :: "E2BStore \<Rightarrow> (nat \<times> settlement) list" where
  "owedSettlement s = (case awaitedCall s of None \<Rightarrow> [] | Some (op, r) \<Rightarrow> [settleQueued op r])"

text \<open>Callbacks that fulfil every call, and the same with a write that always rejects.\<close>

definition okCallbacks :: Callbacks where
  "okCallbacks =
     \<lparr>cb_writeFile = (\<lambda>p c. Inr True), cb_makeDirectory = (\<lambda>p. Inr True),
      cb_runCommand = (\<lambda>c. Inr ()), cb_sendTerminalInput = (\<lambda>t d. Inr ()),
      cb_createSandbox = (\<lambda>u. Inr ''sandbox''), cb_getActiveTerminalId = None\<rparr>"

definition failingWriteCallbacks :: Callbacks where
  "failingWriteCallbacks = okCallbacks\<lparr>cb_writeFile := (\<lambda>p c. Inl ''write failed'')\<rparr>"

section \<open>ActionRunner\<close>

datatype BoltAction =
    FileAction (act_filePath: string) (act_content: string)
  | ShellAction (act_content: string)

datatype ActionStatus = StPending | StRunning | StComplete | StAborted | StFailed

text \<open>
  An entry of the \<^verbatim>\<open>actions\<close> map: the action's own fields, \<^verbatim>\<open>status\<close>,
  \<^verbatim>\<open>executed\<close>, the \<^verbatim>\<open>aborted\<close> flag of its abort signal and the \<^verbatim>\<open>error\<close> text
  that a failed entry carries.
\<close>

record ActionState =
  act :: BoltAction
  status :: ActionStatus
  executed :: bool
  abortSignal :: bool
  act_error :: "string option"

record ActionCallbackData =
  messageId :: string
  actionId :: string
  action :: BoltAction

text \<open>
  A callback attached with \<^verbatim>\<open>then\<close> to \<^verbatim>\<open>#currentExecutionPromise\<close>: the status
  update of \<^verbatim>\<open>addAction\<close>, or the execution of \<^verbatim>\<open>runAction\<close> with its \<^verbatim>\<open>catch\<close>.
\<close>

datatype thunk = MarkRunning string | Execute string

fun thunk_id :: "thunk \<Rightarrow> string" where
  "thunk_id (MarkRunning i) = i"
| "thunk_id (Execute i) = i"

text \<open>
  Where the body of an execution, or of the repair pass, stands while it waits for a
  sandbox call: in the loop over the parent directories, with \<^verbatim>\<open>currentPath\<close> and the
  parts not yet visited; at the \<^verbatim>\<open>await\<close> of \<^verbatim>\<open>writeFile\<close>; or at the \<^verbatim>\<open>await\<close> of
  \<^verbatim>\<open>runCommand\<close>.
\<close>

datatype wait_point = AwaitMkdir string "string list" | AwaitWrite | AwaitRun

text \<open>
  An execution of \<^verbatim>\<open>#executeAction\<close> that has begun and not ended: the id, the action
  read from the map when it began, the place where it waits and the promise it awaits.
\<close>

record Execution =
  ex_id :: string
  ex_action :: BoltAction
  ex_stage :: wait_point
  ex_promise :: promise

text \<open>
  The \<^verbatim>\<open>actions\<close> map is kept as a list of its entries in insertion order
  (\<^verbatim>\<open>Object.values\<close> lists keys that look like integers first, in ascending order;
  the properties proved below do not depend on the order of two entries). \<^verbatim>\<open>pendingThunks\<close> are the
  callbacks hanging on the chain of \<^verbatim>\<open>#currentExecutionPromise\<close> that have not run
  yet, oldest first: every callback is attached to the promise that is the tail at that
  moment, and a tail settles only after the callbacks of all earlier tails have run and
  the execution before it has ended (the section on the promise chain shows this from
  the promises themselves). \<^verbatim>\<open>running\<close> is the execution that has begun and not
  ended. Three fields are observations: \<^verbatim>\<open>submittedIds\<close> lists the ids whose
  execution \<^verbatim>\<open>runAction\<close> chained, \<^verbatim>\<open>started\<close> the ids for which
  \<^verbatim>\<open>#executeAction\<close> was entered, and \<^verbatim>\<open>ended\<close> the executions that came to their
  end, each with \<open>True\<close> for a normal end and \<open>False\<close> for a throw, all in the order
  in which it happened.
\<close>

record ActionRunner =
  actions :: "(string \<times> ActionState) list"
  pendingThunks :: "thunk list"
  running :: "Execution option"
  submittedIds :: "string list"
  started :: "string list"
  ended :: "(string \<times> bool) list"

definition newActionRunner :: ActionRunner where
  "newActionRunner =
     \<lparr>actions = [], pendingThunks = [], running = None, submittedIds = [], started = [],
      ended = []\<rparr>"

text \<open>\<^verbatim>\<open>map.setKey\<close>: an existing key keeps its place, a new key goes last.\<close>

fun setKey :: "(string \<times> 'a) list \<Rightarrow> string \<Rightarrow> 'a \<Rightarrow> (string \<times> 'a) list" where
  "setKey [] k v = [(k, v)]"
| "setKey ((k', v') # kvs) k v =
     (if k' = k then (k, v) # kvs else (k', v') # setKey kvs k v)"

text \<open>
  \<^verbatim>\<open>#updateAction\<close> merges the given fields into the entry. Every call site names an
  entry that exists (\<^verbatim>\<open>runAction\<close> checks it, and entries are never removed), so the
  model leaves the map alone for a key without entry.
\<close>

definition updateAction :: "ActionRunner \<Rightarrow> string \<Rightarrow> (ActionState \<Rightarrow> ActionState) \<Rightarrow> ActionRunner" where
  "updateAction r i upd =
     (case map_of (actions r) i of
        Some a \<Rightarrow> r\<lparr>actions := setKey (actions r) i (upd a)\<rparr>
      | None \<Rightarrow> r)"

definition addAction :: "ActionRunner \<Rightarrow> ActionCallbackData \<Rightarrow> ActionRunner" where
  "addAction r d =
     (case map_of (actions r) (actionId d) of
        Some a \<Rightarrow> r
      | None \<Rightarrow>
          r\<lparr>actions := setKey (actions r) (actionId d)
                \<lparr>act = action d, status = StPending, executed = False,
                 abortSignal = False, act_error = None\<rparr>,
            pendingThunks := pendingThunks r @ [MarkRunning (actionId d)]\<rparr>)"

text \<open>The \<^verbatim>\<open>abort\<close> closure stored in the entry of action \<open>i\<close>.\<close>

definition abortAction :: "ActionRunner \<Rightarrow> string \<Rightarrow> ActionRunner" where
  "abortAction r i =
     updateAction (updateAction r i (\<lambda>a. a\<lparr>abortSignal := True\<rparr>)) i (\<lambda>a. a\<lparr>status := StAborted\<rparr>)"

definition runAction :: "ActionRunner \<Rightarrow> ActionCallbackData \<Rightarrow> ActionRunner \<times> unit async" where
  "runAction r d =
     (case map_of (actions r) (actionId d) of
        None \<Rightarrow> (r, Inl (''Action '' @ actionId d @ '' not found''))
      | Some a \<Rightarrow>
          if executed a then (r, Inr ())
          else
            (let r1 = updateAction r (actionId d) (\<lambda>a. a\<lparr>act := action d, executed := True\<rparr>)
             in (r1\<lparr>pendingThunks := pendingThunks r1 @ [Execute (actionId d)],
                    submittedIds := submittedIds r1 @ [actionId d]\<rparr>, Inr ())))"

text \<open>One runner together with the two stores it writes to.\<close>

record World =
  runner :: ActionRunner
  filesStore :: FilesStore
  sandbox :: E2BStore

definition sandboxPath :: "string \<Rightarrow> string" where
  "sandboxPath p =
     (if startsWith p ''/home/user/'' then p else ''/home/user/'' @ strip_leading_slash p)"

text \<open>
  The loop that creates the parent directories in the sandbox, from \<^verbatim>\<open>currentPath\<close>
  over the parts still to visit, run until it is suspended or over. A call that reaches
  a callback or the queue suspends the loop at its \<^verbatim>\<open>await\<close>: the result is the place
  and the awaited promise. The promise of a call that returned at once is settled
  already, and the loop goes on in the same step. \<open>None\<close> says that the loop is over.
\<close>

fun mkdirLoop :: "string \<Rightarrow> string list \<Rightarrow> E2BStore \<Rightarrow> E2BStore \<times> (wait_point \<times> promise) option" where
  "mkdirLoop currentPath [] s = (s, None)"
| "mkdirLoop currentPath (part # parts) s =
     (let currentPath' = currentPath @ ''/'' @ part in
      if startsWith currentPath' ''/home/user''
      then (case makeDirectory s currentPath' of
              (s1, pr) \<Rightarrow>
                (case pr of
                   Immediate b \<Rightarrow> mkdirLoop currentPath' parts s1
                 | FromCallback r \<Rightarrow> (s1, Some (AwaitMkdir currentPath' parts, pr))
                 | Queued n \<Rightarrow> (s1, Some (AwaitMkdir currentPath' parts, pr))))
      else mkdirLoop currentPath' parts s)"

text \<open>
  Directories, then the file: the sandbox part shared by the runner and the repair
  pass, from a place in the loop on. \<open>None\<close> says that the part is over: the
  \<^verbatim>\<open>await\<close> of \<^verbatim>\<open>writeFile\<close> has been passed.
\<close>

definition sandboxFrom :: "E2BStore \<Rightarrow> string \<Rightarrow> string \<Rightarrow> string \<Rightarrow> string list
    \<Rightarrow> E2BStore \<times> (wait_point \<times> promise) option" where
  "sandboxFrom s p c currentPath parts =
     (case mkdirLoop currentPath parts s of
        (s1, Some w) \<Rightarrow> (s1, Some w)
      | (s1, None) \<Rightarrow>
          (case writeFile s1 (sandboxPath p) c of
             (s2, pr) \<Rightarrow>
               (case pr of
                  Immediate b \<Rightarrow> (s2, None)
                | FromCallback r \<Rightarrow> (s2, Some (AwaitWrite, pr))
                | Queued n \<Rightarrow> (s2, Some (AwaitWrite, pr)))))"

text \<open>The sandbox part from its beginning: the loop runs over all parts but the last.\<close>

definition sandboxStart :: "E2BStore \<Rightarrow> string \<Rightarrow> string \<Rightarrow> E2BStore \<times> (wait_point \<times> promise) option" where
  "sandboxStart s p c = sandboxFrom s p c [] (butlast (path_parts (sandboxPath p)))"

text \<open>
  The sandbox part going on after a fulfilled \<^verbatim>\<open>await\<close>: the value of a
  \<^verbatim>\<open>makeDirectory\<close> is not read, and after the \<^verbatim>\<open>writeFile\<close> only a log line
  depends on it.
\<close>

definition sandboxResume :: "E2BStore \<Rightarrow> string \<Rightarrow> string \<Rightarrow> wait_point
    \<Rightarrow> E2BStore \<times> (wait_point \<times> promise) option" where
  "sandboxResume s p c st =
     (case st of
        AwaitMkdir currentPath parts \<Rightarrow> sandboxFrom s p c currentPath parts
      | AwaitWrite \<Rightarrow> (s, None)
      | AwaitRun \<Rightarrow> (s, None))"

text \<open>
  How far the body of an action has come when control goes back to the event loop: it
  waits for a promise, it has returned, or it has thrown.
\<close>

datatype progress = Waits wait_point promise | Returns | Throws string

text \<open>
  \<^verbatim>\<open>#runFileAction\<close> from its beginning. The call of \<^verbatim>\<open>addFile\<close> stands behind the
  sandbox part, inside the same \<^verbatim>\<open>try\<close>.
\<close>

definition runFileAction :: "World \<Rightarrow> BoltAction \<Rightarrow> World \<times> progress" where
  "runFileAction w a =
     (case a of
        ShellAction c \<Rightarrow> (w, Throws ''Expected file action'')
      | FileAction p c \<Rightarrow>
          if isReady (sandbox w)
          then (case sandboxStart (sandbox w) p c of
                  (s1, Some (st, pr)) \<Rightarrow> (w\<lparr>sandbox := s1\<rparr>, Waits st pr)
                | (s1, None) \<Rightarrow>
                    (w\<lparr>sandbox := s1, filesStore := addFile (filesStore w) p c\<rparr>, Returns))
          else (w\<lparr>filesStore := addFile (filesStore w) p c\<rparr>, Returns))"

definition runShellAction :: "World \<Rightarrow> BoltAction \<Rightarrow> World \<times> progress" where
  "runShellAction w a =
     (case a of
        FileAction p c \<Rightarrow> (w, Throws ''Expected shell action'')
      | ShellAction c \<Rightarrow>
          if isReady (sandbox w)
          then (case runCommand (sandbox w) c of
                  (s1, pr) \<Rightarrow>
                    (case pr of
                       Immediate b \<Rightarrow> (w\<lparr>sandbox := s1\<rparr>, Returns)
                     | FromCallback r \<Rightarrow> (w\<lparr>sandbox := s1\<rparr>, Waits AwaitRun pr)
                     | Queued n \<Rightarrow> (w\<lparr>sandbox := s1\<rparr>, Waits AwaitRun pr)))
          else (w, Returns))"

text \<open>The \<^verbatim>\<open>switch\<close> on the action's type in \<^verbatim>\<open>#executeAction\<close>.\<close>

definition runBody :: "World \<Rightarrow> BoltAction \<Rightarrow> World \<times> progress" where
  "runBody w a =
     (case a of
        ShellAction c \<Rightarrow> runShellAction w a
      | FileAction p c \<Rightarrow> runFileAction w a)"

text \<open>
  The body going on when the awaited promise has settled. An \<^verbatim>\<open>await\<close> of a rejected
  promise throws: the \<^verbatim>\<open>catch\<close> of the body logs and throws the error again, so
  nothing behind the \<^verbatim>\<open>await\<close> is run. After a fulfilled one, a file action goes on
  with the sandbox part and, when that is over, calls \<^verbatim>\<open>addFile\<close>; a shell action
  returns.
\<close>

definition resumeBody :: "World \<Rightarrow> BoltAction \<Rightarrow> wait_point \<Rightarrow> bool async \<Rightarrow> World \<times> progress" where
  "resumeBody w a st r =
     (case r of
        Inl e \<Rightarrow> (w, Throws e)
      | Inr b \<Rightarrow>
          (case a of
             ShellAction c \<Rightarrow> (w, Returns)
           | FileAction p c \<Rightarrow>
               (case sandboxResume (sandbox w) p c st of
                  (s1, Some (st', pr)) \<Rightarrow> (w\<lparr>sandbox := s1\<rparr>, Waits st' pr)
                | (s1, None) \<Rightarrow>
                    (w\<lparr>sandbox := s1, filesStore := addFile (filesStore w) p c\<rparr>, Returns))))"

text \<open>
  What \<^verbatim>\<open>#executeAction\<close> does with the progress of the body. While the body waits,
  the execution is kept as the running one. After a normal end the status becomes
  aborted or complete, read from the abort signal, which is shared with the stored
  entry; the \<^verbatim>\<open>catch\<close> block marks the action failed and throws the error again, and
  the \<^verbatim>\<open>catch\<close> of the chain logs it. Either way the execution is over.
\<close>

definition proceed :: "ActionRunner \<Rightarrow> string \<Rightarrow> BoltAction \<Rightarrow> progress \<Rightarrow> ActionRunner" where
  "proceed r i a pg =
     (case pg of
        Waits st pr \<Rightarrow>
          r\<lparr>running := Some \<lparr>ex_id = i, ex_action = a, ex_stage = st, ex_promise = pr\<rparr>\<rparr>
      | Returns \<Rightarrow>
          (updateAction r i (\<lambda>a. a\<lparr>status := (if abortSignal a then StAborted else StComplete)\<rparr>))
            \<lparr>running := None, ended := ended r @ [(i, True)]\<rparr>
      | Throws e \<Rightarrow>
          (updateAction r i (\<lambda>a. a\<lparr>status := StFailed, act_error := Some ''Action failed''\<rparr>))
            \<lparr>running := None, ended := ended r @ [(i, False)]\<rparr>)"

text \<open>
  \<^verbatim>\<open>#executeAction\<close> from its beginning: the entry is read, the status set to running
  and the body run as far as it goes. The id is noted in \<^verbatim>\<open>started\<close> first. The
  branch without an entry is not reached through \<^verbatim>\<open>runAction\<close>; there the read of
  \<^verbatim>\<open>action.type\<close> throws.
\<close>

definition executeAction :: "World \<Rightarrow> string \<Rightarrow> World" where
  "executeAction w i =
     (let w0 = w\<lparr>runner := (runner w)\<lparr>started := started (runner w) @ [i]\<rparr>\<rparr> in
      case map_of (actions (runner w0)) i of
        None \<Rightarrow> w0\<lparr>runner := (runner w0)\<lparr>ended := ended (runner w0) @ [(i, False)]\<rparr>\<rparr>
      | Some a \<Rightarrow>
          (case runBody (w0\<lparr>runner := updateAction (runner w0) i (\<lambda>a. a\<lparr>status := StRunning\<rparr>)\<rparr>)
                  (act a) of
             (w2, pg) \<Rightarrow> w2\<lparr>runner := proceed (runner w2) i (act a) pg\<rparr>))"

text \<open>
  The running execution is resumed: nothing happens while its promise is not settled;
  otherwise the body goes on with the outcome.
\<close>

definition resumeExecution :: "World \<Rightarrow> World" where
  "resumeExecution w =
     (case running (runner w) of
        None \<Rightarrow> w
      | Some x \<Rightarrow>
          (case outcome (sandbox w) (ex_promise x) of
             None \<Rightarrow> w
           | Some r \<Rightarrow>
               (case resumeBody w (ex_action x) (ex_stage x) r of
                  (w2, pg) \<Rightarrow> w2\<lparr>runner := proceed (runner w2) (ex_id x) (ex_action x) pg\<rparr>)))"

text \<open>Running one callback of the chain.\<close>

definition runThunk :: "World \<Rightarrow> thunk \<Rightarrow> World" where
  "runThunk w t =
     (case t of
        MarkRunning i \<Rightarrow> w\<lparr>runner := updateAction (runner w) i (\<lambda>a. a\<lparr>status := StRunning\<rparr>)\<rparr>
      | Execute i \<Rightarrow> executeAction w i)"

text \<open>
  What can happen to one runner and its stores, one event at a time: the producer
  registers or submits an action, an action is aborted, the event loop runs the next
  callback of the chain, the event loop resumes the running execution, or something
  happens to the sandbox store. The chain is held while an execution runs: the promise
  the next callback hangs on settles when that execution has ended, by a return or by a
  throw alike, since the \<^verbatim>\<open>catch\<close> after \<^verbatim>\<open>then\<close> only logs.
\<close>

datatype runner_event =
    EvAddAction ActionCallbackData
  | EvRunAction ActionCallbackData
  | EvAbort string
  | EvNextThunk
  | EvResume
  | EvSandbox sandbox_event

fun apply_event :: "World \<Rightarrow> runner_event \<Rightarrow> World" where
  "apply_event w (EvAddAction d) = w\<lparr>runner := addAction (runner w) d\<rparr>"
| "apply_event w (EvRunAction d) = w\<lparr>runner := fst (runAction (runner w) d)\<rparr>"
| "apply_event w (EvAbort i) = w\<lparr>runner := abortAction (runner w) i\<rparr>"
| "apply_event w EvNextThunk =
     (case pendingThunks (runner w) of
        [] \<Rightarrow> w
      | t # ts \<Rightarrow>
          if running (runner w) \<noteq> None then w
          else runThunk (w\<lparr>runner := (runner w)\<lparr>pendingThunks := ts\<rparr>\<rparr>) t)"
| "apply_event w EvResume = resumeExecution w"
| "apply_event w (EvSandbox e) = w\<lparr>sandbox := sandboxStep (sandbox w) e\<rparr>"

definition run_events :: "World \<Rightarrow> runner_event list \<Rightarrow> World" where
  "run_events w evs = foldl apply_event w evs"

text \<open>
  The event loop left to itself. The next thing it can do without the producer and
  without the owner of the sandbox: let the call awaited by the queue settle, resume the
  running execution once its promise is settled, or run the next callback of the chain
  when no execution is running. \<open>None\<close> says that nothing can go on.
\<close>

definition nextInternal :: "World \<Rightarrow> runner_event option" where
  "nextInternal w =
     (if awaitedCall (sandbox w) \<noteq> None then Some (EvSandbox SbSettle)
      else (case running (runner w) of
              Some x \<Rightarrow>
                (if outcome (sandbox w) (ex_promise x) \<noteq> None then Some EvResume else None)
            | None \<Rightarrow> (if pendingThunks (runner w) \<noteq> [] then Some EvNextThunk else None)))"

text \<open>At most \<open>n\<close> such steps, one after the other.\<close>

fun settleFor :: "nat \<Rightarrow> World \<Rightarrow> World" where
  "settleFor 0 w = w"
| "settleFor (Suc n) w =
     (case nextInternal w of
        None \<Rightarrow> w
      | Some ev \<Rightarrow> settleFor n (apply_event w ev))"

text \<open>
  A bound on the number of such steps. An execution passes at most one \<^verbatim>\<open>await\<close> per
  part of the sandbox path and one for the write; a step of an execution may put one
  operation into the queue, and an operation of the queue costs at most two steps of
  the loop.
\<close>

definition awaitsLeft :: "wait_point \<Rightarrow> nat" where
  "awaitsLeft st =
     (case st of AwaitMkdir currentPath parts \<Rightarrow> length parts + 2 | AwaitWrite \<Rightarrow> 1 | AwaitRun \<Rightarrow> 1)"

definition awaitsOf :: "BoltAction \<Rightarrow> nat" where
  "awaitsOf a =
     (case a of
        FileAction p c \<Rightarrow> length (path_parts (sandboxPath p)) + 2
      | ShellAction c \<Rightarrow> 1)"

definition thunkCost :: "ActionRunner \<Rightarrow> thunk \<Rightarrow> nat" where
  "thunkCost r t =
     (case t of
        MarkRunning i \<Rightarrow> 1
      | Execute i \<Rightarrow>
          (case map_of (actions r) i of None \<Rightarrow> 1 | Some a \<Rightarrow> 3 * awaitsOf (act a) + 3))"

definition queueCost :: "E2BStore \<Rightarrow> nat" where
  "queueCost s = 2 * length (pendingOperations s) + (if awaitedCall s = None then 0 else 1)"

definition settleBound :: "World \<Rightarrow> nat" where
  "settleBound w =
     sum_list (map (thunkCost (runner w)) (pendingThunks (runner w)))
     + (case running (runner w) of None \<Rightarrow> 0 | Some x \<Rightarrow> 3 * awaitsLeft (ex_stage x))
     + queueCost (sandbox w)"

text \<open>The event loop left to itself until nothing can go on.\<close>

definition settleAll :: "World \<Rightarrow> World" where
  "settleAll w = settleFor (settleBound w) w"

section \<open>WorkbenchStore: the repair pass\<close>

record ArtifactState =
  art_id :: string
  title :: string
  closed :: bool
  art_runner :: ActionRunner

record WorkbenchStore =
  wb_filesStore :: FilesStore
  artifacts :: "string \<rightharpoonup> ArtifactState"

record SyncResult =
  synced :: nat
  total :: nat
  missing :: "string list"

text \<open>The entry is a file: \<^verbatim>\<open>existingFile && existingFile.type === 'file'\<close>.\<close>

definition isFileEntry :: "Dirent option \<Rightarrow> bool" where
  "isFileEntry d = (case d of Some (File c b) \<Rightarrow> True | _ \<Rightarrow> False)"

definition isFileAction :: "BoltAction \<Rightarrow> bool" where
  "isFileAction a = (case a of FileAction p c \<Rightarrow> True | ShellAction c \<Rightarrow> False)"

text \<open>
  The running values of the loop of \<^verbatim>\<open>syncMissingFiles\<close>: the files store, the
  sandbox store, \<^verbatim>\<open>syncedCount\<close> and \<^verbatim>\<open>missingFiles\<close>, and as an observation the
  paths for which the \<^verbatim>\<open>catch\<close> logged \<^verbatim>\<open>Failed to sync file\<close>.
\<close>

record SyncState =
  ss_files :: FilesStore
  ss_sandbox :: E2BStore
  syncedCount :: nat
  missingFiles :: "string list"
  ss_errors :: "string list"

text \<open>
  The body of the loop for one action, as far as it runs. \<^verbatim>\<open>currentFiles\<close> is the
  map read once before the loop. For a missing file the path is pushed and
  \<^verbatim>\<open>addFile\<close> called before the sandbox part begins. The result names the place and
  the promise when the body waits for a sandbox call, and is \<open>None\<close> when the body is
  over.
\<close>

definition syncOne :: "FileMap \<Rightarrow> BoltAction \<Rightarrow> SyncState
    \<Rightarrow> SyncState \<times> (string \<times> string \<times> wait_point \<times> promise) option" where
  "syncOne currentFiles a st =
     (case a of
        ShellAction c \<Rightarrow> (st, None)
      | FileAction p c \<Rightarrow>
          if isFileEntry (currentFiles (normalizePath p)) then (st, None)
          else
            (let st1 = st\<lparr>missingFiles := missingFiles st @ [p]\<rparr>;
                 st2 = st1\<lparr>ss_files := addFile (ss_files st1) p c\<rparr> in
             if isReady (ss_sandbox st2)
             then (case sandboxStart (ss_sandbox st2) p c of
                     (s1, Some (stg, pr)) \<Rightarrow> (st2\<lparr>ss_sandbox := s1\<rparr>, Some (p, c, stg, pr))
                   | (s1, None) \<Rightarrow>
                       (st2\<lparr>ss_sandbox := s1, syncedCount := syncedCount st2 + 1\<rparr>, None))
             else (st2\<lparr>syncedCount := syncedCount st2 + 1\<rparr>, None)))"

text \<open>
  The loop over the file actions, run until a body waits or the loop is over. When a
  body waits, the result also holds the actions behind it.
\<close>

fun syncLoop :: "FileMap \<Rightarrow> BoltAction list \<Rightarrow> SyncState
    \<Rightarrow> SyncState \<times> (BoltAction list \<times> string \<times> string \<times> wait_point \<times> promise) option" where
  "syncLoop currentFiles [] st = (st, None)"
| "syncLoop currentFiles (a # rest) st =
     (case syncOne currentFiles a st of
        (st1, None) \<Rightarrow> syncLoop currentFiles rest st1
      | (st1, Some w) \<Rightarrow> (st1, Some (rest, w)))"

text \<open>
  The body going on when the awaited promise has settled. A rejected promise throws
  into the \<^verbatim>\<open>catch\<close>, which logs the path; the file is not counted. After a fulfilled
  one the sandbox part goes on, and when it is over the file is counted.
\<close>

definition syncAfter :: "string \<Rightarrow> string \<Rightarrow> wait_point \<Rightarrow> bool async \<Rightarrow> SyncState
    \<Rightarrow> SyncState \<times> (string \<times> string \<times> wait_point \<times> promise) option" where
  "syncAfter p c stg r st =
     (case r of
        Inl e \<Rightarrow> (st\<lparr>ss_errors := ss_errors st @ [p]\<rparr>, None)
      | Inr b \<Rightarrow>
          (case sandboxResume (ss_sandbox st) p c stg of
             (s1, Some (stg', pr)) \<Rightarrow> (st\<lparr>ss_sandbox := s1\<rparr>, Some (p, c, stg', pr))
           | (s1, None) \<Rightarrow> (st\<lparr>ss_sandbox := s1, syncedCount := syncedCount st + 1\<rparr>, None)))"

text \<open>
  A pass of \<^verbatim>\<open>syncMissingFiles\<close> that waits for a sandbox call: the map read before
  the loop, the list \<^verbatim>\<open>fileActions\<close>, the actions behind the one being repaired, the
  path and content of that one, the place where its body waits, the awaited promise,
  and the two running values of the loop.
\<close>

record SyncPass =
  sp_currentFiles :: FileMap
  sp_fileActions :: "BoltAction list"
  sp_rest :: "BoltAction list"
  sp_path :: string
  sp_content :: string
  sp_stage :: wait_point
  sp_promise :: promise
  sp_synced :: nat
  sp_missing :: "string list"

text \<open>A pass waits, or it has returned its result.\<close>

datatype pass_state = PassWaits SyncPass | PassReturned SyncResult

text \<open>
  The workbench with the sandbox store and, as an observation, the paths logged by the
  \<^verbatim>\<open>catch\<close> of the loop.
\<close>

record Workbench =
  wb :: WorkbenchStore
  wb_sandbox :: E2BStore
  syncErrors :: "string list"

definition newWorkbench :: "WorkbenchStore \<Rightarrow> E2BStore \<Rightarrow> Workbench" where
  "newWorkbench b s = \<lparr>wb = b, wb_sandbox = s, syncErrors = []\<rparr>"

text \<open>
  Control goes back to the event loop: the stores are as the loop left them, and the
  pass either waits or returns its result.
\<close>

definition leavePass :: "Workbench \<Rightarrow> FileMap \<Rightarrow> BoltAction list
    \<Rightarrow> SyncState \<times> (BoltAction list \<times> string \<times> string \<times> wait_point \<times> promise) option
    \<Rightarrow> Workbench \<times> pass_state" where
  "leavePass k currentFiles fileActions x =
     (case x of
        (st, None) \<Rightarrow>
          (k\<lparr>wb := (wb k)\<lparr>wb_filesStore := ss_files st\<rparr>, wb_sandbox := ss_sandbox st,
             syncErrors := ss_errors st\<rparr>,
           PassReturned
             \<lparr>synced = syncedCount st, total = length fileActions, missing = missingFiles st\<rparr>)
      | (st, Some (rest, p, c, stg, pr)) \<Rightarrow>
          (k\<lparr>wb := (wb k)\<lparr>wb_filesStore := ss_files st\<rparr>, wb_sandbox := ss_sandbox st,
             syncErrors := ss_errors st\<rparr>,
           PassWaits
             \<lparr>sp_currentFiles = currentFiles, sp_fileActions = fileActions, sp_rest = rest,
              sp_path = p, sp_content = c, sp_stage = stg, sp_promise = pr,
              sp_synced = syncedCount st, sp_missing = missingFiles st\<rparr>))"

text \<open>\<^verbatim>\<open>syncMissingFiles\<close> from its beginning.\<close>

definition syncMissingFiles :: "Workbench \<Rightarrow> string \<Rightarrow> Workbench \<times> pass_state" where
  "syncMissingFiles k mid =
     (case artifacts (wb k) mid of
        None \<Rightarrow> (k, PassReturned \<lparr>synced = 0, total = 0, missing = []\<rparr>)
      | Some artifact \<Rightarrow>
          (let fileActions = filter isFileAction (map (act \<circ> snd) (actions (art_runner artifact)));
               currentFiles = files (wb_filesStore (wb k)) in
           leavePass k currentFiles fileActions
             (syncLoop currentFiles fileActions
                \<lparr>ss_files = wb_filesStore (wb k), ss_sandbox = wb_sandbox k, syncedCount = 0,
                 missingFiles = [], ss_errors = syncErrors k\<rparr>)))"

text \<open>
  The waiting pass is resumed: nothing happens while its promise is not settled;
  otherwise the body of the current action goes on, and when it is over, the loop goes
  on with the actions behind it.
\<close>

definition resumePass :: "Workbench \<Rightarrow> SyncPass \<Rightarrow> Workbench \<times> pass_state" where
  "resumePass k f =
     (case outcome (wb_sandbox k) (sp_promise f) of
        None \<Rightarrow> (k, PassWaits f)
      | Some r \<Rightarrow>
          (case syncAfter (sp_path f) (sp_content f) (sp_stage f) r
                  \<lparr>ss_files = wb_filesStore (wb k), ss_sandbox = wb_sandbox k,
                   syncedCount = sp_synced f, missingFiles = sp_missing f,
                   ss_errors = syncErrors k\<rparr> of
             (st1, Some w) \<Rightarrow>
               leavePass k (sp_currentFiles f) (sp_fileActions f) (st1, Some (sp_rest f, w))
           | (st1, None) \<Rightarrow>
               leavePass k (sp_currentFiles f) (sp_fileActions f)
                 (syncLoop (sp_currentFiles f) (sp_rest f) st1)))"

text \<open>
  What can happen while one pass is followed to its end: the event loop resumes the
  pass, or something happens to the sandbox store. Nothing else writes to the files
  store meanwhile.
\<close>

datatype pass_event = PsResume | PsSandbox sandbox_event

fun passStep :: "Workbench \<times> pass_state \<Rightarrow> pass_event \<Rightarrow> Workbench \<times> pass_state" where
  "passStep (k, PassWaits f) PsResume = resumePass k f"
| "passStep (k, PassReturned r) PsResume = (k, PassReturned r)"
| "passStep (k, ps) (PsSandbox e) = (k\<lparr>wb_sandbox := sandboxStep (wb_sandbox k) e\<rparr>, ps)"

definition passRun :: "Workbench \<times> pass_state \<Rightarrow> pass_event list \<Rightarrow> Workbench \<times> pass_state" where
  "passRun x evs = foldl passStep x evs"

section \<open>What the proofs keep track of\<close>

text \<open>
  The \<^verbatim>\<open>executed\<close> flag of action \<open>i\<close> (false without entry), and how often the
  execution of \<open>i\<close> was chained onto the tail: the executions begun plus those waiting.
\<close>

definition executedOf :: "ActionRunner \<Rightarrow> string \<Rightarrow> bool" where
  "executedOf r i = (case map_of (actions r) i of Some a \<Rightarrow> executed a | None \<Rightarrow> False)"

definition timesScheduled :: "ActionRunner \<Rightarrow> string \<Rightarrow> nat" where
  "timesScheduled r i = count_list (started r) i + count_list (pendingThunks r) (Execute i)"

text \<open>No execution is chained twice, and none is chained for an action not yet submitted.\<close>

definition onceInv :: "ActionRunner \<Rightarrow> bool" where
  "onceInv r = (\<forall>i. timesScheduled r i \<le> (if executedOf r i then 1 else 0))"

text \<open>
  The flag \<^verbatim>\<open>isProcessingQueue\<close> is set exactly while the loop of \<^verbatim>\<open>processQueue\<close>
  is suspended at a call.
\<close>

definition loopInv :: "E2BStore \<Rightarrow> bool" where
  "loopInv s = (isProcessingQueue s = (awaitedCall s \<noteq> None))"

text \<open>
  The queue \<open>q\<close> of the store \<open>s\<close> has been drained with the callbacks \<open>cbs\<close>, and
  \<open>t\<close> is the store afterwards: the queue is empty, the loop is over, every operation
  made its call and got its settlement, in queue order.
\<close>

definition drainedFrom :: "E2BStore \<Rightarrow> Callbacks \<Rightarrow> PendingOperation list \<Rightarrow> E2BStore \<Rightarrow> bool" where
  "drainedFrom s cbs q t =
     (pendingOperations t = [] \<and> awaitedCall t = None \<and> \<not> isProcessingQueue t
      \<and> calls t = calls s @ concat (map drainedCalls q)
      \<and> settlements t = settlements s @ map (\<lambda>op. (op_promise op, drainedSettlement cbs op)) q
      \<and> fileWriteCallback t = fileWriteCallback s
      \<and> makeDirectoryCallback t = makeDirectoryCallback s
      \<and> runCommandCallback t = runCommandCallback s
      \<and> e2bState t = e2bState s)"

text \<open>The store with the callbacks assigned, before the queue is looked at.\<close>

definition installed :: "E2BStore \<Rightarrow> Callbacks \<Rightarrow> E2BStore" where
  "installed s cbs =
     s\<lparr>fileWriteCallback := Some (cb_writeFile cbs),
       makeDirectoryCallback := Some (cb_makeDirectory cbs),
       runCommandCallback := Some (cb_runCommand cbs),
       terminalSendInput := Some (cb_sendTerminalInput cbs),
       createSandboxCallback := Some (cb_createSandbox cbs),
       activeTerminalId := cb_getActiveTerminalId cbs\<rparr>"

text \<open>The ids of the executions that wait in the chain, oldest first.\<close>

fun execIds :: "thunk list \<Rightarrow> string list" where
  "execIds [] = []"
| "execIds (MarkRunning i # ts) = execIds ts"
| "execIds (Execute i # ts) = i # execIds ts"

text \<open>
  No callback for an action stands in the chain behind the execution of that action.
\<close>

fun noLater :: "thunk list \<Rightarrow> bool" where
  "noLater [] = True"
| "noLater (t # ts) =
     ((case t of Execute i \<Rightarrow> list_all (\<lambda>u. thunk_id u \<noteq> i) ts | MarkRunning i \<Rightarrow> True)
      \<and> noLater ts)"

text \<open>
  What holds of a runner that started new. The chain is ordered as above; a chained
  execution belongs to a submitted action; an action whose execution has begun is
  submitted and has no callback left in the chain; no execution begins twice; every
  execution that has begun has ended, the running one apart; the running execution
  holds the action of its entry; and the executions begun and those waiting make up the
  submissions, in their order.
\<close>

definition chainInv :: "ActionRunner \<Rightarrow> bool" where
  "chainInv r =
     (noLater (pendingThunks r)
      \<and> (\<forall>i. Execute i \<in> set (pendingThunks r) \<longrightarrow> executedOf r i)
      \<and> (\<forall>i\<in>set (started r). executedOf r i \<and> (\<forall>t\<in>set (pendingThunks r). thunk_id t \<noteq> i))
      \<and> distinct (started r)
      \<and> started r = map fst (ended r) @ (case running r of None \<Rightarrow> [] | Some x \<Rightarrow> [ex_id x])
      \<and> (\<forall>x. running r = Some x \<longrightarrow>
            (\<exists>a. map_of (actions r) (ex_id x) = Some a \<and> act a = ex_action x))
      \<and> started r @ execIds (pendingThunks r) = submittedIds r
      \<and> (\<forall>i. executedOf r i \<longrightarrow> i \<in> set (submittedIds r)))"

text \<open>
  The status an execution left stays with its action as long as the action is not
  aborted, and only an execution's own end makes its action failed or complete.
\<close>

definition statusInv :: "ActionRunner \<Rightarrow> bool" where
  "statusInv r =
     ((\<forall>i ok. (i, ok) \<in> set (ended r) \<longrightarrow>
          (\<exists>a. map_of (actions r) i = Some a
             \<and> (\<not> abortSignal a \<longrightarrow> status a = (if ok then StComplete else StFailed))
             \<and> (\<not> ok \<longrightarrow> act_error a = Some ''Action failed'')))
      \<and> (\<forall>i a. map_of (actions r) i = Some a \<and> status a = StFailed \<longrightarrow> (i, False) \<in> set (ended r))
      \<and> (\<forall>i a. map_of (actions r) i = Some a \<and> status a = StComplete \<longrightarrow> (i, True) \<in> set (ended r)))"

text \<open>Every file action whose execution ended normally has its file in the local store.\<close>

definition writtenInv :: "World \<Rightarrow> bool" where
  "writtenInv w =
     (\<forall>i a p c. (i, True) \<in> set (ended (runner w)) \<and> map_of (actions (runner w)) i = Some a
          \<and> act a = FileAction p c \<longrightarrow>
        isFileEntry (files (filesStore w) (normalizePath p)))"

text \<open>
  The directories for which the loop over the parent directories calls
  \<^verbatim>\<open>makeDirectory\<close>, from a place in the loop on and for a whole path, and the first
  of them together with the parts behind it.
\<close>

fun nextDir :: "string \<Rightarrow> string list \<Rightarrow> (string \<times> string list) option" where
  "nextDir currentPath [] = None"
| "nextDir currentPath (part # parts) =
     (let currentPath' = currentPath @ ''/'' @ part in
      if startsWith currentPath' ''/home/user'' then Some (currentPath', parts)
      else nextDir currentPath' parts)"

fun dirsFrom :: "string \<Rightarrow> string list \<Rightarrow> string list" where
  "dirsFrom currentPath [] = []"
| "dirsFrom currentPath (part # parts) =
     (let currentPath' = currentPath @ ''/'' @ part in
      (if startsWith currentPath' ''/home/user'' then [currentPath'] else [])
        @ dirsFrom currentPath' parts)"

definition sandboxDirs :: "string \<Rightarrow> string list" where
  "sandboxDirs p = dirsFrom [] (butlast (path_parts (sandboxPath p)))"

text \<open>The call is fulfilled, with whatever value.\<close>

definition fulfilled :: "'a async \<Rightarrow> bool" where
  "fulfilled r = (case r of Inl e \<Rightarrow> False | Inr v \<Rightarrow> True)"

text \<open>
  The implementations take the file: every directory is made and the file is written,
  no call rejected.
\<close>

definition takesFile :: "(string \<Rightarrow> bool async) \<Rightarrow> (string \<Rightarrow> string \<Rightarrow> bool async)
    \<Rightarrow> string \<Rightarrow> string \<Rightarrow> bool" where
  "takesFile mk wr p c =
     (list_all (\<lambda>d. fulfilled (mk d)) (sandboxDirs p) \<and> fulfilled (wr (sandboxPath p) c))"

section \<open>The promise chain of the runner, step by step\<close>

text \<open>
  The sections above keep the callbacks of the chain in one list and hold the chain
  while an execution runs. This section does not take that for granted: it follows the
  promises themselves. A promise is pending, fulfilled or rejected. A callback attached to a
  pending promise waits in its reaction list; when the promise settles, its reactions
  become jobs of the microtask queue, and a callback attached to a settled promise
  becomes a job at once.
\<close>

datatype pst = PPending | PFulfilled | PRejected

text \<open>
  The three callbacks the runner attaches: \<^verbatim>\<open>.then(() => this.#executeAction(i))\<close>
  with the promise that \<^verbatim>\<open>then\<close> returns, \<^verbatim>\<open>.catch(log)\<close> with the promise that
  \<^verbatim>\<open>catch\<close> returns, and the status update of \<^verbatim>\<open>addAction\<close>.
\<close>

datatype reaction = ThenExecute string nat | CatchLog nat | ThenMark string

datatype sched_event = Begin string | End string

text \<open>
  \<^verbatim>\<open>tailPromise\<close> is \<^verbatim>\<open>#currentExecutionPromise\<close>. \<^verbatim>\<open>frames\<close> are the executions of
  \<^verbatim>\<open>#executeAction\<close> that have begun and not ended, each with the promise it settles.
  \<^verbatim>\<open>known\<close> holds the \<^verbatim>\<open>executed\<close> flag of every registered action. Two fields are
  observations: \<^verbatim>\<open>submitted\<close> lists the executions chained by \<^verbatim>\<open>runAction\<close>, oldest
  first, each with its two promises, and \<^verbatim>\<open>trace\<close> lists the begins and ends of
  executions as they happen.
\<close>

record Sched =
  pstate :: "nat \<Rightarrow> pst"
  reactions :: "nat \<Rightarrow> reaction list"
  jobs :: "(reaction \<times> pst) list"
  tailPromise :: nat
  nextFresh :: nat
  frames :: "(string \<times> nat) list"
  known :: "string \<rightharpoonup> bool"
  submitted :: "(string \<times> nat \<times> nat) list"
  trace :: "sched_event list"

text \<open>A new runner: promise 0 is \<^verbatim>\<open>Promise.resolve()\<close>.\<close>

definition initSched :: Sched where
  "initSched =
     \<lparr>pstate = (\<lambda>p. if p = 0 then PFulfilled else PPending), reactions = (\<lambda>p. []),
      jobs = [], tailPromise = 0, nextFresh = 1, frames = [], known = Map.empty,
      submitted = [], trace = []\<rparr>"

text \<open>Attaching a callback to a promise.\<close>

definition attach :: "Sched \<Rightarrow> nat \<Rightarrow> reaction \<Rightarrow> Sched" where
  "attach s p r =
     (if pstate s p = PPending
      then s\<lparr>reactions := (reactions s)(p := reactions s p @ [r])\<rparr>
      else s\<lparr>jobs := jobs s @ [(r, pstate s p)]\<rparr>)"

text \<open>Settling a promise: its reactions become jobs, in the order they were attached.\<close>

definition settlePromise :: "Sched \<Rightarrow> nat \<Rightarrow> pst \<Rightarrow> Sched" where
  "settlePromise s p st =
     s\<lparr>pstate := (pstate s)(p := st),
       jobs := jobs s @ map (\<lambda>r. (r, st)) (reactions s p),
       reactions := (reactions s)(p := [])\<rparr>"

text \<open>
  What can happen: \<^verbatim>\<open>addAction\<close> and \<^verbatim>\<open>runAction\<close> for an id, the event loop running
  the first job of the microtask queue, and the execution of an action coming to its
  end, normally or by throwing. When an execution ends is not decided by the runner: it
  ends when the sandbox calls it awaits have settled, so the end is a step of its own
  that may come at any time after the begin.
\<close>

datatype sched_label = LAddAction string | LRunAction string | LJob | LFinish string bool

text \<open>
  \<^verbatim>\<open>addAction\<close>: a known id changes nothing; a new id is registered with
  \<^verbatim>\<open>executed = false\<close> and the status update is attached to the tail (the promise that
  this \<^verbatim>\<open>then\<close> returns is not kept).
\<close>

definition schedAddAction :: "Sched \<Rightarrow> string \<Rightarrow> Sched" where
  "schedAddAction s i =
     (case known s i of
        Some e \<Rightarrow> s
      | None \<Rightarrow>
          (let s1 = attach (s\<lparr>known := (known s)(i \<mapsto> False)\<rparr>) (tailPromise s) (ThenMark i)
           in s1\<lparr>nextFresh := nextFresh s1 + 1\<rparr>))"

text \<open>
  \<^verbatim>\<open>runAction\<close>: an unknown id throws and an executed one returns, both without
  touching the chain. Otherwise the flag is set, \<^verbatim>\<open>then\<close> attaches the execution to
  the tail and returns the promise \<open>q\<close>, \<^verbatim>\<open>catch\<close> attaches the logging to \<open>q\<close> and
  returns the promise \<open>c\<close>, and \<open>c\<close> is the new tail.
\<close>

definition schedRunAction :: "Sched \<Rightarrow> string \<Rightarrow> Sched" where
  "schedRunAction s i =
     (case known s i of
        None \<Rightarrow> s
      | Some e \<Rightarrow>
          if e then s
          else
            (let q = nextFresh s;
                 c = q + 1;
                 s1 = attach (s\<lparr>known := (known s)(i \<mapsto> True)\<rparr>) (tailPromise s) (ThenExecute i q);
                 s2 = attach s1 q (CatchLog c)
             in s2\<lparr>tailPromise := c, nextFresh := c + 1, submitted := submitted s @ [(i, q, c)]\<rparr>))"

text \<open>
  Running a job. The callback of \<^verbatim>\<open>then\<close> is called only for a fulfilled promise and
  then begins the execution; for a rejected promise the rejection passes on to \<open>q\<close>.
  The promise of \<^verbatim>\<open>catch\<close> is fulfilled either way: a fulfilment passes through, a
  rejection is handled by the logging callback.
\<close>

definition runJob :: "Sched \<Rightarrow> reaction \<Rightarrow> pst \<Rightarrow> Sched" where
  "runJob s r st =
     (case r of
        ThenMark i \<Rightarrow> s
      | ThenExecute i q \<Rightarrow>
          if st = PFulfilled
          then s\<lparr>frames := frames s @ [(i, q)], trace := trace s @ [Begin i]\<rparr>
          else settlePromise s q st
      | CatchLog c \<Rightarrow> settlePromise s c PFulfilled)"

definition schedJob :: "Sched \<Rightarrow> Sched" where
  "schedJob s =
     (case jobs s of
        [] \<Rightarrow> s
      | (r, st) # js \<Rightarrow> runJob (s\<lparr>jobs := js\<rparr>) r st)"

text \<open>The execution of \<open>i\<close> ends: its promise is fulfilled, or rejected if it threw.\<close>

definition schedFinish :: "Sched \<Rightarrow> string \<Rightarrow> bool \<Rightarrow> Sched" where
  "schedFinish s i ok =
     (case find (\<lambda>f. fst f = i) (frames s) of
        None \<Rightarrow> s
      | Some f \<Rightarrow>
          settlePromise (s\<lparr>frames := remove1 f (frames s), trace := trace s @ [End i]\<rparr>)
            (snd f) (if ok then PFulfilled else PRejected))"

fun schedStep :: "Sched \<Rightarrow> sched_label \<Rightarrow> Sched" where
  "schedStep s (LAddAction i) = schedAddAction s i"
| "schedStep s (LRunAction i) = schedRunAction s i"
| "schedStep s LJob = schedJob s"
| "schedStep s (LFinish i ok) = schedFinish s i ok"

definition schedRun :: "sched_label list \<Rightarrow> Sched" where
  "schedRun ls = foldl schedStep initSched ls"

text \<open>The trace in which the given executions run one after the other, each to its end.\<close>

definition serialTrace :: "string list \<Rightarrow> sched_event list" where
  "serialTrace is = concat (map (\<lambda>i. [Begin i, End i]) is)"

text \<open>
  What the proof of the serial order keeps track of. A reaction or job that begins or
  continues an execution, as opposed to a status update:
\<close>

definition isExec :: "reaction \<Rightarrow> bool" where
  "isExec r = (case r of ThenMark i \<Rightarrow> False | ThenExecute i q \<Rightarrow> True | CatchLog c \<Rightarrow> True)"

definition execs :: "reaction list \<Rightarrow> reaction list" where
  "execs rs = filter isExec rs"

definition execJobs :: "(reaction \<times> pst) list \<Rightarrow> (reaction \<times> pst) list" where
  "execJobs js = filter (\<lambda>j. isExec (fst j)) js"

text \<open>The promises of a list of chained executions, and the tail after chaining them.\<close>

definition promisesOf :: "(string \<times> nat \<times> nat) list \<Rightarrow> nat list" where
  "promisesOf L = concat (map (\<lambda>l. [fst (snd l), snd (snd l)]) L)"

definition tailOf :: "(string \<times> nat \<times> nat) list \<Rightarrow> nat" where
  "tailOf L = (if L = [] then 0 else snd (snd (last L)))"

text \<open>
  The executions \<open>W\<close> hang on the pending promise \<open>p\<close>, one behind the other: the
  first waits in the reactions of \<open>p\<close>, its own two promises are pending, and the rest
  hangs on its second promise.
\<close>

fun hanging :: "Sched \<Rightarrow> nat \<Rightarrow> (string \<times> nat \<times> nat) list \<Rightarrow> bool" where
  "hanging s p [] = (execs (reactions s p) = [])"
| "hanging s p (l # W) =
     (execs (reactions s p) = [ThenExecute (fst l) (fst (snd l))]
      \<and> pstate s (fst (snd l)) = PPending
      \<and> reactions s (fst (snd l)) = [CatchLog (snd (snd l))]
      \<and> pstate s (snd (snd l)) = PPending
      \<and> hanging s (snd (snd l)) W)"

text \<open>
  Where the oldest execution that is not over stands: its job is in the queue, or it
  has begun, or it has ended and the job of its \<^verbatim>\<open>catch\<close> is in the queue. \<open>D\<close> are
  the executions before it.
\<close>

definition stage :: "Sched \<Rightarrow> string list \<Rightarrow> string \<Rightarrow> nat \<Rightarrow> nat \<Rightarrow> bool" where
  "stage s D i q c =
     ((pstate s q = PPending \<and> reactions s q = [CatchLog c] \<and> frames s = []
         \<and> execJobs (jobs s) = [(ThenExecute i q, PFulfilled)]
         \<and> trace s = serialTrace D)
      \<or> (pstate s q = PPending \<and> reactions s q = [CatchLog c] \<and> frames s = [(i, q)]
         \<and> execJobs (jobs s) = []
         \<and> trace s = serialTrace D @ [Begin i])
      \<or> (pstate s q \<noteq> PPending \<and> frames s = []
         \<and> execJobs (jobs s) = [(CatchLog c, pstate s q)]
         \<and> trace s = serialTrace D @ [Begin i, End i]))"

fun shape :: "Sched \<Rightarrow> (string \<times> nat \<times> nat) list \<Rightarrow> (string \<times> nat \<times> nat) list \<Rightarrow> bool" where
  "shape s D [] =
     (frames s = [] \<and> execJobs (jobs s) = [] \<and> trace s = serialTrace (map fst D))"
| "shape s D (l # W) =
     (pstate s (snd (snd l)) = PPending \<and> hanging s (snd (snd l)) W
      \<and> stage s (map fst D) (fst l) (fst (snd l)) (snd (snd l)))"

definition schedWf :: "Sched \<Rightarrow> bool" where
  "schedWf s =
     (0 < nextFresh s \<and> pstate s 0 = PFulfilled
      \<and> (\<forall>p. nextFresh s \<le> p \<longrightarrow> pstate s p = PPending \<and> reactions s p = [])
      \<and> (\<forall>p\<in>set (promisesOf (submitted s)). 0 < p \<and> p < nextFresh s)
      \<and> distinct (promisesOf (submitted s))
      \<and> tailPromise s = tailOf (submitted s))"

definition schedInv :: "Sched \<Rightarrow> bool" where
  "schedInv s =
     (schedWf s
      \<and> (\<exists>D R. submitted s = D @ R
            \<and> (\<forall>l\<in>set D. pstate s (snd (snd l)) = PFulfilled)
            \<and> shape s D R))"

section \<open>Scenarios\<close>

text \<open>
  Two actions are registered and submitted at once; the event loop runs; an end of the
  second is announced before the first has ended; then the first throws, and the second
  ends.
\<close>

definition lateFinishRun :: "sched_label list" where
  "lateFinishRun =
     [LAddAction ''a'', LAddAction ''b'', LRunAction ''a'', LRunAction ''b'',
      LJob, LJob, LJob, LFinish ''b'' True, LJob, LFinish ''a'' False, LJob, LJob,
      LFinish ''b'' True, LJob]"

text \<open>A sandbox in the connecting phase with one queued command, the empty one.\<close>

definition queuedEmptyCommand :: E2BStore where
  "queuedEmptyCommand = fst (runCommand (setConnecting initialE2BStore True) [])"

text \<open>
  The events that lead to a sandbox in the connecting phase with two queued writes and
  a queued directory.
\<close>

definition queueThree :: "sandbox_event list" where
  "queueThree =
     [SbSetConnecting True, SbWriteFile ''a'' ''x'', SbWriteFile ''b'' ''y'', SbMakeDirectory ''d'']"

text \<open>A files store that holds one file.\<close>

definition oneFileStore :: FilesStore where
  "oneFileStore = saveFile emptyFilesStore ''/project/a.txt'' ''x''"

text \<open>A sandbox that went through connecting, registration and connected.\<close>

definition connectedSandbox :: "Callbacks \<Rightarrow> E2BStore" where
  "connectedSandbox cbs =
     setConnected (registerSandboxCallbacks (setConnecting initialE2BStore True) cbs) True
       (Some ''sandbox'')"

text \<open>The producer's two calls for one action: \<^verbatim>\<open>addAction\<close>, then \<^verbatim>\<open>runAction\<close>.\<close>

definition submitAction :: "ActionRunner \<Rightarrow> string \<Rightarrow> BoltAction \<Rightarrow> ActionRunner" where
  "submitAction r i a =
     (let d = \<lparr>messageId = ''m'', actionId = i, action = a\<rparr>
      in fst (runAction (addAction r d) d))"

text \<open>A world with one submitted file action, an empty files store and a sandbox.\<close>

definition oneActionWorld :: "E2BStore \<Rightarrow> World" where
  "oneActionWorld s =
     \<lparr>runner = submitAction newActionRunner ''0'' (FileAction ''a.txt'' ''x''),
      filesStore = emptyFilesStore,
      sandbox = s\<rparr>"

text \<open>The record the producer sends for action \<^verbatim>\<open>0\<close>.\<close>

definition actionData :: "BoltAction \<Rightarrow> ActionCallbackData" where
  "actionData a = \<lparr>messageId = ''m'', actionId = ''0'', action = a\<rparr>"

text \<open>A world with a new runner.\<close>

definition emptyWorld :: World where
  "emptyWorld = \<lparr>runner = newActionRunner, filesStore = emptyFilesStore, sandbox = initialE2BStore\<rparr>"

text \<open>A new runner with an empty files store and a sandbox.\<close>

definition newWorld :: "E2BStore \<Rightarrow> World" where
  "newWorld s = \<lparr>runner = newActionRunner, filesStore = emptyFilesStore, sandbox = s\<rparr>"

section \<open>Properties of the sandbox store\<close>

text \<open>
  Claim C10. For every boolean and every id, \<^verbatim>\<open>setConnected\<close> overwrites the stored
  sandbox id with its second argument and sets \<^verbatim>\<open>isConnecting\<close> to false, also when
  the first argument is false; with the second argument left out the stored id becomes
  \<^verbatim>\<open>null\<close>.
\<close>

theorem setConnected_overwrites:
  "sandboxId (e2bState (setConnected s b sid)) = sid
   \<and> isConnecting (e2bState (setConnected s b sid)) = False
   \<and> isConnected (e2bState (setConnected s b sid)) = b
   \<and> sandboxId (e2bState (setConnected_default s b)) = None
   \<and> isConnecting (e2bState (setConnected_default s b)) = False"
  by (simp add: setConnected_def setConnected_default_def Let_def)

lemma rejectLoop_fields:
  "pendingOperations (rejectLoop s) = []
   \<and> settlements (rejectLoop s) =
       settlements s @ map (\<lambda>op. (op_promise op, RejectedWith ''E2B sandbox reset'')) (pendingOperations s)
   \<and> calls (rejectLoop s) = calls s
   \<and> e2bState (rejectLoop s) = e2bState s
   \<and> fileWriteCallback (rejectLoop s) = fileWriteCallback s
   \<and> makeDirectoryCallback (rejectLoop s) = makeDirectoryCallback s
   \<and> runCommandCallback (rejectLoop s) = runCommandCallback s
   \<and> terminalSendInput (rejectLoop s) = terminalSendInput s
   \<and> createSandboxCallback (rejectLoop s) = createSandboxCallback s
   \<and> activeTerminalId (rejectLoop s) = activeTerminalId s
   \<and> isProcessingQueue (rejectLoop s) = isProcessingQueue s
   \<and> awaitedCall (rejectLoop s) = awaitedCall s
   \<and> nextPromise (rejectLoop s) = nextPromise s"
proof (induction s rule: rejectLoop.induct)
  case (1 s)
  show ?case
  proof (cases "pendingOperations s")
    case Nil
    then show ?thesis by (simp add: rejectLoop.simps [of s])
  next
    case (Cons op rest)
    with 1 [OF Cons] show ?thesis by (simp add: rejectLoop.simps [of s])
  qed
qed

text \<open>
  Claim C5. \<^verbatim>\<open>reset\<close> puts the connection state back to its initial values, drops
  every callback and rejects the promise of every queued operation with the error
  \<^verbatim>\<open>E2B sandbox reset\<close>, in queue order; the queue is empty afterwards, and a later
  registration of callbacks calls no implementation and settles nothing.
\<close>

theorem reset_rejects_queue:
  "e2bState (reset s) = initialState
   \<and> fileWriteCallback (reset s) = None \<and> makeDirectoryCallback (reset s) = None
   \<and> runCommandCallback (reset s) = None \<and> terminalSendInput (reset s) = None
   \<and> createSandboxCallback (reset s) = None \<and> activeTerminalId (reset s) = None
   \<and> pendingOperations (reset s) = []
   \<and> settlements (reset s) =
       settlements s @ map (\<lambda>op. (op_promise op, RejectedWith ''E2B sandbox reset'')) (pendingOperations s)
   \<and> calls (reset s) = calls s
   \<and> calls (registerSandboxCallbacks (reset s) cbs) = calls s
   \<and> settlements (registerSandboxCallbacks (reset s) cbs) = settlements (reset s)
   \<and> pendingOperations (registerSandboxCallbacks (reset s) cbs) = []"
proof -
  have r: "pendingOperations (reset s) = []" "calls (reset s) = calls s"
    by (simp_all add: reset_def rejectLoop_fields)
  have reg: "calls (registerSandboxCallbacks (reset s) cbs) = calls (reset s)
      \<and> settlements (registerSandboxCallbacks (reset s) cbs) = settlements (reset s)
      \<and> pendingOperations (registerSandboxCallbacks (reset s) cbs) = []"
    using r(1) by (simp add: registerSandboxCallbacks_def processQueue_def)
  show ?thesis
    using reg r by (simp add: reset_def rejectLoop_fields)
qed

subsection \<open>The loop of the queue, round by round\<close>

lemma drainLoop_keeps:
  "e2bState (drainLoop s) = e2bState s
   \<and> fileWriteCallback (drainLoop s) = fileWriteCallback s
   \<and> makeDirectoryCallback (drainLoop s) = makeDirectoryCallback s
   \<and> runCommandCallback (drainLoop s) = runCommandCallback s
   \<and> terminalSendInput (drainLoop s) = terminalSendInput s
   \<and> createSandboxCallback (drainLoop s) = createSandboxCallback s
   \<and> activeTerminalId (drainLoop s) = activeTerminalId s
   \<and> nextPromise (drainLoop s) = nextPromise s
   \<and> length (pendingOperations (drainLoop s)) \<le> length (pendingOperations s)
   \<and> length (calls (drainLoop s)) \<le> Suc (length (calls s))"
proof (induction s rule: drainLoop.induct)
  case (1 s)
  show ?case
  proof (cases "pendingOperations s")
    case Nil
    then show ?thesis by (simp add: drainLoop.simps [of s])
  next
    case (Cons op rest)
    show ?thesis
    proof (cases "queuedCall s op")
      case None
      with 1 [OF Cons None] Cons show ?thesis
        by (simp add: drainLoop.simps [of s])
    next
      case (Some cr)
      with Cons show ?thesis
        by (cases cr) (simp add: drainLoop.simps [of s])
    qed
  qed
qed

lemma drainLoop_loopInv:
  "isProcessingQueue s \<Longrightarrow> awaitedCall s = None \<Longrightarrow> loopInv (drainLoop s)"
proof (induction s rule: drainLoop.induct)
  case (1 s)
  show ?case
  proof (cases "pendingOperations s")
    case Nil
    with 1(2,3) show ?thesis by (simp add: drainLoop.simps [of s] loopInv_def)
  next
    case (Cons op rest)
    show ?thesis
    proof (cases "queuedCall s op")
      case None
      with 1(1) [OF Cons None] 1(2,3) Cons show ?thesis
        by (simp add: drainLoop.simps [of s])
    next
      case (Some cr)
      with Cons 1(2,3) show ?thesis
        by (cases cr) (simp add: drainLoop.simps [of s] loopInv_def)
    qed
  qed
qed

lemma calls_keep_loop:
  "isProcessingQueue (fst (writeFile s p c)) = isProcessingQueue s"
  "awaitedCall (fst (writeFile s p c)) = awaitedCall s"
  "isProcessingQueue (fst (makeDirectory s p)) = isProcessingQueue s"
  "awaitedCall (fst (makeDirectory s p)) = awaitedCall s"
  "isProcessingQueue (fst (runCommand s c)) = isProcessingQueue s"
  "awaitedCall (fst (runCommand s c)) = awaitedCall s"
  by (simp_all add: writeFile_def makeDirectory_def runCommand_def enqueue_def Let_def
      split: option.splits)

lemma loopInv_idle: "loopInv s \<Longrightarrow> \<not> isProcessingQueue s \<Longrightarrow> awaitedCall s = None"
  by (cases "awaitedCall s") (auto simp: loopInv_def)

lemma loopInv_step: "loopInv s \<Longrightarrow> loopInv (sandboxStep s ev)"
proof (cases ev)
  case (SbRegister cbs)
  assume inv: "loopInv s"
  let ?s0 = "s\<lparr>fileWriteCallback := Some (cb_writeFile cbs),
          makeDirectoryCallback := Some (cb_makeDirectory cbs),
          runCommandCallback := Some (cb_runCommand cbs),
          terminalSendInput := Some (cb_sendTerminalInput cbs),
          createSandboxCallback := Some (cb_createSandbox cbs),
          activeTerminalId := cb_getActiveTerminalId cbs\<rparr>"
  show ?thesis
  proof (cases "isProcessingQueue s \<or> pendingOperations s = []")
    case True
    then have "registerSandboxCallbacks s cbs = ?s0"
      by (auto simp: registerSandboxCallbacks_def processQueue_def)
    with inv SbRegister show ?thesis
      by (simp add: loopInv_def)
  next
    case False
    with inv have "awaitedCall s = None"
      by (auto intro: loopInv_idle)
    then have "loopInv (drainLoop (?s0\<lparr>isProcessingQueue := True\<rparr>))"
      by (intro drainLoop_loopInv) simp_all
    with False SbRegister show ?thesis
      by (simp add: registerSandboxCallbacks_def processQueue_def)
  qed
next
  case SbSettle
  assume inv: "loopInv s"
  show ?thesis
  proof (cases "awaitedCall s")
    case None
    with inv SbSettle show ?thesis by (simp add: resumeQueue_def)
  next
    case (Some x)
    obtain op r where x: "x = (op, r)" by (cases x)
    from inv Some have "isProcessingQueue s"
      by (simp add: loopInv_def)
    then have "loopInv (drainLoop (s\<lparr>awaitedCall := None,
        settlements := settlements s @ [settleQueued op r]\<rparr>))"
      by (intro drainLoop_loopInv) simp_all
    with Some x SbSettle show ?thesis by (simp add: resumeQueue_def)
  qed
qed (simp_all add: loopInv_def setConnecting_def setConnected_def Let_def reset_def rejectLoop_fields
      calls_keep_loop)

lemma loopInv_run: "loopInv (sandboxRun evs)"
proof -
  have "loopInv s \<Longrightarrow> loopInv (foldl sandboxStep s evs)" for s
    by (induction evs arbitrary: s) (auto simp: loopInv_step)
  moreover have "loopInv initialE2BStore"
    by (simp add: loopInv_def initialE2BStore_def)
  ultimately show ?thesis by (simp add: sandboxRun_def)
qed

lemma resumeQueue_idle: "awaitedCall t = None \<Longrightarrow> (resumeQueue ^^ n) t = t"
  by (induction n) (simp_all add: resumeQueue_def)

lemma queuedCall_without:
  assumes "fileWriteCallback s = Some (cb_writeFile cbs)"
    and "makeDirectoryCallback s = Some (cb_makeDirectory cbs)"
    and "runCommandCallback s = Some (cb_runCommand cbs)"
    and "\<not> hasArguments op"
  shows "queuedCall s op = None \<and> drainedCalls op = []
    \<and> drainedSettlement cbs op = Resolved False"
  using assms
  by (auto simp: queuedCall_def drainedCalls_def drainedSettlement_def hasArguments_def
      split: OpType.splits)

lemma queuedCall_with:
  assumes "fileWriteCallback s = Some (cb_writeFile cbs)"
    and "makeDirectoryCallback s = Some (cb_makeDirectory cbs)"
    and "runCommandCallback s = Some (cb_runCommand cbs)"
    and "hasArguments op"
  shows "\<exists>c r. queuedCall s op = Some (c, r) \<and> drainedCalls op = [c]
    \<and> settleQueued op r = (op_promise op, drainedSettlement cbs op)"
  using assms
  by (auto simp: queuedCall_def drainedCalls_def drainedSettlement_def hasArguments_def
      settleQueued_def split: OpType.splits sum.splits)

lemma drain_runs:
  assumes "fileWriteCallback s = Some (cb_writeFile cbs)"
    and "makeDirectoryCallback s = Some (cb_makeDirectory cbs)"
    and "runCommandCallback s = Some (cb_runCommand cbs)"
    and "awaitedCall s = None"
    and "pendingOperations s = q"
    and "length q \<le> n"
  shows "drainedFrom s cbs q ((resumeQueue ^^ n) (drainLoop s))"
  using assms
proof (induction q arbitrary: s n)
  case Nil
  have "drainLoop s = s\<lparr>isProcessingQueue := False\<rparr>"
    using Nil.prems(5) by (simp add: drainLoop.simps [of s])
  moreover have "(resumeQueue ^^ n) (s\<lparr>isProcessingQueue := False\<rparr>) = s\<lparr>isProcessingQueue := False\<rparr>"
    using Nil.prems(4) by (intro resumeQueue_idle) simp
  ultimately show ?case
    using Nil.prems by (simp add: drainedFrom_def)
next
  case (Cons op rest)
  note cb = Cons.prems(1-3)
  show ?case
  proof (cases "hasArguments op")
    case False
    note qc = queuedCall_without [OF cb False]
    let ?s' = "s\<lparr>pendingOperations := rest,
                  settlements := settlements s @ [(op_promise op, Resolved False)]\<rparr>"
    have unf: "drainLoop s = drainLoop ?s'"
      using Cons.prems(5) qc by (simp add: drainLoop.simps [of s])
    have "drainedFrom ?s' cbs rest ((resumeQueue ^^ n) (drainLoop ?s'))"
      by (rule Cons.IH) (use Cons.prems in simp_all)
    then show ?thesis
      unfolding unf using qc by (simp add: drainedFrom_def)
  next
    case True
    from queuedCall_with [OF cb True] obtain c r where
      qc: "queuedCall s op = Some (c, r)" and dc: "drainedCalls op = [c]"
      and st: "settleQueued op r = (op_promise op, drainedSettlement cbs op)"
      by blast
    let ?t = "s\<lparr>pendingOperations := rest, calls := calls s @ [c], awaitedCall := Some (op, r)\<rparr>"
    let ?t' = "?t\<lparr>awaitedCall := None, settlements := settlements ?t @ [settleQueued op r]\<rparr>"
    have unf: "drainLoop s = ?t"
      using Cons.prems(5) qc by (simp add: drainLoop.simps [of s])
    from Cons.prems(6) obtain m where n: "n = Suc m" and m: "length rest \<le> m"
      by (cases n) auto
    have res: "resumeQueue ?t = drainLoop ?t'"
      by (simp add: resumeQueue_def)
    have "(resumeQueue ^^ n) ?t = (resumeQueue ^^ m) (resumeQueue ?t)"
      unfolding n by (simp add: funpow_swap1)
    then have run: "(resumeQueue ^^ n) (drainLoop s) = (resumeQueue ^^ m) (drainLoop ?t')"
      unfolding unf res .
    have "drainedFrom ?t' cbs rest ((resumeQueue ^^ m) (drainLoop ?t'))"
      by (rule Cons.IH) (use Cons.prems m in simp_all)
    then show ?thesis
      unfolding run using dc st by (simp add: drainedFrom_def)
  qed
qed

lemma register_drains:
  assumes "loopInv s"
  shows "drainedFrom (installed s cbs\<lparr>settlements := settlements s @ owedSettlement s\<rparr>) cbs
           (pendingOperations s)
           ((resumeQueue ^^ Suc (length (pendingOperations s))) (registerSandboxCallbacks s cbs))
    \<and> fileWriteCallback (registerSandboxCallbacks s cbs) = Some (cb_writeFile cbs)
    \<and> length (calls (registerSandboxCallbacks s cbs)) \<le> Suc (length (calls s))"
proof -
  let ?q = "pendingOperations s"
  let ?s0 = "s\<lparr>fileWriteCallback := Some (cb_writeFile cbs),
          makeDirectoryCallback := Some (cb_makeDirectory cbs),
          runCommandCallback := Some (cb_runCommand cbs),
          terminalSendInput := Some (cb_sendTerminalInput cbs),
          createSandboxCallback := Some (cb_createSandbox cbs),
          activeTerminalId := cb_getActiveTerminalId cbs\<rparr>"
  have inst: "installed s cbs = ?s0"
    by (simp add: installed_def)
  show ?thesis
  proof (cases "isProcessingQueue s")
    case True
    with assms obtain op r where aw: "awaitedCall s = Some (op, r)"
      by (cases "awaitedCall s") (auto simp: loopInv_def)
    have reg: "registerSandboxCallbacks s cbs = ?s0"
      using True by (simp add: registerSandboxCallbacks_def processQueue_def)
    let ?t' = "?s0\<lparr>awaitedCall := None, settlements := settlements ?s0 @ [settleQueued op r]\<rparr>"
    have res: "resumeQueue ?s0 = drainLoop ?t'"
      using aw by (simp add: resumeQueue_def)
    have run: "(resumeQueue ^^ Suc (length ?q)) ?s0 = (resumeQueue ^^ length ?q) (drainLoop ?t')"
      using res by (simp add: funpow_swap1)
    have "drainedFrom ?t' cbs ?q ((resumeQueue ^^ length ?q) (drainLoop ?t'))"
      by (rule drain_runs) simp_all
    then show ?thesis
      unfolding reg run inst using aw by (simp add: drainedFrom_def owedSettlement_def)
  next
    case False
    with assms have aw: "awaitedCall s = None" by (auto intro: loopInv_idle)
    show ?thesis
    proof (cases "?q = []")
      case True
      have reg: "registerSandboxCallbacks s cbs = ?s0"
        using True by (simp add: registerSandboxCallbacks_def processQueue_def)
      have "(resumeQueue ^^ Suc (length ?q)) ?s0 = ?s0"
        using aw by (intro resumeQueue_idle) simp
      then show ?thesis
        unfolding reg inst using aw True False by (simp add: drainedFrom_def owedSettlement_def)
    next
      case nonempty: False
      let ?s1 = "?s0\<lparr>isProcessingQueue := True\<rparr>"
      have reg: "registerSandboxCallbacks s cbs = drainLoop ?s1"
        using False nonempty by (simp add: registerSandboxCallbacks_def processQueue_def)
      have "drainedFrom ?s1 cbs ?q ((resumeQueue ^^ Suc (length ?q)) (drainLoop ?s1))"
        by (rule drain_runs) (use aw in simp_all)
      moreover have "fileWriteCallback (drainLoop ?s1) = Some (cb_writeFile cbs)"
        "length (calls (drainLoop ?s1)) \<le> Suc (length (calls s))"
        using drainLoop_keeps [of ?s1] by simp_all
      ultimately show ?thesis
        unfolding reg inst using aw by (simp add: drainedFrom_def owedSettlement_def)
    qed
  qed
qed

lemma register_idle:
  assumes "pendingOperations t = []"
  shows "calls (registerSandboxCallbacks t cbs) = calls t
    \<and> settlements (registerSandboxCallbacks t cbs) = settlements t
    \<and> pendingOperations (registerSandboxCallbacks t cbs) = []
    \<and> awaitedCall (registerSandboxCallbacks t cbs) = awaitedCall t"
  using assms by (simp add: registerSandboxCallbacks_def processQueue_def)

text \<open>
  Claim C4, as amended. Take the store as any run of events has left it, with
  operations in the queue, and register callbacks. The registration itself returns at
  the first call it makes; the loop it started, or a loop that was already under way,
  then goes through the queue as the calls settle, oldest operation first, until the
  queue is empty and the loop is over. An operation that carries its arguments (a
  non-empty path, for a write also a content, a non-empty command) has the newly
  installed implementation called with them and its promise settled with the outcome:
  resolved with the result, or rejected with the error the implementation threw. An
  operation whose path or command is empty or missing calls nothing and is resolved with
  \<^verbatim>\<open>false\<close>. The settlement of one operation depends on that operation alone, so a
  throwing implementation rejects one promise and the rest is still processed. The only
  other settlement is the one owed to the call that a loop under way was waiting for.
  A second registration on the emptied queue calls nothing and settles nothing.
\<close>

theorem registerSandboxCallbacks_drains_queue:
  "(let s = sandboxRun evs;
        s1 = registerSandboxCallbacks s cbs;
        s2 = (resumeQueue ^^ Suc (length (pendingOperations s))) s1;
        s3 = registerSandboxCallbacks s2 cbs'
    in length (calls s1) \<le> Suc (length (calls s))
       \<and> pendingOperations s2 = [] \<and> awaitedCall s2 = None \<and> \<not> isProcessingQueue s2
       \<and> calls s2 = calls s @ concat (map drainedCalls (pendingOperations s))
       \<and> settlements s2 =
           settlements s @ owedSettlement s
             @ map (\<lambda>op. (op_promise op, drainedSettlement cbs op)) (pendingOperations s)
       \<and> resumeQueue s2 = s2
       \<and> calls s3 = calls s2 \<and> settlements s3 = settlements s2
       \<and> pendingOperations s3 = [] \<and> awaitedCall s3 = None)"
proof -
  let ?s = "sandboxRun evs"
  let ?s2 = "(resumeQueue ^^ Suc (length (pendingOperations ?s))) (registerSandboxCallbacks ?s cbs)"
  note d = register_drains [OF loopInv_run, of evs cbs]
  from d have d1: "pendingOperations ?s2 = []" "awaitedCall ?s2 = None"
    by (simp_all add: drainedFrom_def)
  have idle: "resumeQueue ?s2 = ?s2"
    using d1(2) by (simp add: resumeQueue_def)
  note r = register_idle [OF d1(1), of cbs']
  show ?thesis
    unfolding Let_def using d r idle d1 by (simp add: drainedFrom_def installed_def)
qed

text \<open>
  Three operations are queued; callbacks that fulfil every call are registered, and in
  the same step, before the first call has settled, callbacks whose write is rejected:
  the first write, called already, is resolved; the second write is made with the later
  callbacks and rejected; the directory is still made.
\<close>

theorem registerSandboxCallbacks_drains_queue_witness:
  "calls ((resumeQueue ^^ 3)
      (registerSandboxCallbacks (sandboxRun (queueThree @ [SbRegister okCallbacks])) failingWriteCallbacks))
     = [CallWriteFile ''a'' ''x'', CallWriteFile ''b'' ''y'', CallMakeDirectory ''d'']
   \<and> settlements ((resumeQueue ^^ 3)
      (registerSandboxCallbacks (sandboxRun (queueThree @ [SbRegister okCallbacks])) failingWriteCallbacks))
     = [(0, Resolved True), (1, RejectedWith ''write failed''), (2, Resolved True)]"
proof -
  have q: "length (pendingOperations (sandboxRun (queueThree @ [SbRegister okCallbacks]))) = 2"
    by code_simp
  have c: "calls (sandboxRun (queueThree @ [SbRegister okCallbacks])) = [CallWriteFile ''a'' ''x'']"
    by code_simp
  have st: "settlements (sandboxRun (queueThree @ [SbRegister okCallbacks])) = []"
    by code_simp
  have ow: "owedSettlement (sandboxRun (queueThree @ [SbRegister okCallbacks])) = [(0, Resolved True)]"
    by code_simp
  have dc: "concat (map drainedCalls (pendingOperations (sandboxRun (queueThree @ [SbRegister okCallbacks]))))
      = [CallWriteFile ''b'' ''y'', CallMakeDirectory ''d'']"
    by code_simp
  have ds: "map (\<lambda>op. (op_promise op, drainedSettlement failingWriteCallbacks op))
        (pendingOperations (sandboxRun (queueThree @ [SbRegister okCallbacks])))
      = [(1, RejectedWith ''write failed''), (2, Resolved True)]"
    by code_simp
  show ?thesis
    using registerSandboxCallbacks_drains_queue
      [of "queueThree @ [SbRegister okCallbacks]" failingWriteCallbacks okCallbacks]
    unfolding Let_def q c st ow dc ds
    by (simp add: numeral_3_eq_3)
qed

text \<open>
  The claim as stated fails for a queued command that is empty: the queue holds the
  operation, and after the registration no implementation was called and the promise is
  resolved with \<^verbatim>\<open>false\<close>, although the installed implementation fulfils every call.
\<close>

theorem drain_skips_empty_command_counterexample:
  "length (pendingOperations queuedEmptyCommand) = 1
   \<and> calls (registerSandboxCallbacks queuedEmptyCommand okCallbacks) = []
   \<and> settlements (registerSandboxCallbacks queuedEmptyCommand okCallbacks) = [(0, Resolved False)]
   \<and> awaitedCall (registerSandboxCallbacks queuedEmptyCommand okCallbacks) = None"
  by code_simp

section \<open>Properties of the files store\<close>

lemma saveFile_keeps_baseline:
  "modifiedFiles st p = Some b \<Longrightarrow> modifiedFiles (saveFile st q c) p = Some b"
  by (auto simp: saveFile_def persistToStorage_def Let_def)

lemma saveAll_keeps_baseline:
  "modifiedFiles st p = Some b \<Longrightarrow> modifiedFiles (saveAll st ws) p = Some b"
  unfolding saveAll_def
  by (induction ws arbitrary: st) (auto simp: saveFile_keeps_baseline)

text \<open>
  Claim C6. The baseline is a map, so a path has at most one entry. The first write to
  a path that holds a file and has no baseline yet records the content it replaces; no
  later run of writes, to this or any other path, changes that entry; only
  \<^verbatim>\<open>resetFileModifications\<close> removes it. A path that holds \<open>x\<close> and is written with
  \<open>y\<close> and then \<open>z\<close> has, from an empty baseline, exactly the entry \<open>p \<mapsto> x\<close>; so
  have three writes \<open>x\<close>, \<open>y\<close>, \<open>z\<close> to an empty store, whose first write records
  nothing.
\<close>

theorem baseline_first_touch:
  assumes "files st p = Some (File x bin)" and "modifiedFiles st p = None"
  shows "modifiedFiles (saveFile st p y) p = Some x
    \<and> modifiedFiles (saveAll (saveFile st p y) ws) p = Some x
    \<and> (modifiedFiles st = Map.empty \<longrightarrow>
          modifiedFiles (saveFile (saveFile st p y) p z) = [p \<mapsto> x])
    \<and> modifiedFiles (saveFile emptyFilesStore p x) = Map.empty
    \<and> modifiedFiles (saveFile (saveFile (saveFile emptyFilesStore p x) p y) p z) = [p \<mapsto> x]
    \<and> modifiedFiles (resetFileModifications (saveFile st p y)) = Map.empty"
proof -
  have a: "modifiedFiles (saveFile st p y) p = Some x"
    using assms by (simp add: saveFile_def persistToStorage_def getFile_def Let_def)
  have b: "modifiedFiles (saveAll (saveFile st p y) ws) p = Some x"
    using a by (rule saveAll_keeps_baseline)
  have c: "modifiedFiles st = Map.empty \<longrightarrow>
        modifiedFiles (saveFile (saveFile st p y) p z) = [p \<mapsto> x]"
    using assms by (simp add: saveFile_def persistToStorage_def getFile_def Let_def)
  have d: "modifiedFiles (saveFile emptyFilesStore p x) = Map.empty"
    by (simp add: saveFile_def persistToStorage_def getFile_def Let_def emptyFilesStore_def)
  have e: "modifiedFiles (saveFile (saveFile (saveFile emptyFilesStore p x) p y) p z) = [p \<mapsto> x]"
    by (simp add: saveFile_def persistToStorage_def getFile_def Let_def emptyFilesStore_def)
  have f: "modifiedFiles (resetFileModifications (saveFile st p y)) = Map.empty"
    by (simp add: resetFileModifications_def)
  from a b c d e f show ?thesis by blast
qed

lemma oneFileStore_fields:
  "files oneFileStore ''/project/a.txt'' = Some (File ''x'' False)"
  "modifiedFiles oneFileStore = Map.empty"
  by (simp_all add: oneFileStore_def saveFile_def persistToStorage_def getFile_def Let_def
      emptyFilesStore_def)

theorem baseline_first_touch_witness:
  "files oneFileStore ''/project/a.txt'' = Some (File ''x'' False)
   \<and> modifiedFiles oneFileStore ''/project/a.txt'' = None
   \<and> modifiedFiles (saveFile (saveFile oneFileStore ''/project/a.txt'' ''y'') ''/project/a.txt'' ''z'')
       = [''/project/a.txt'' \<mapsto> ''x'']
   \<and> modifiedFiles
        (saveAll (saveFile oneFileStore ''/project/a.txt'' ''y'')
           [(''/project/a.txt'', ''z''), (''/project/b.txt'', ''w''), (''/project/a.txt'', ''v'')])
        ''/project/a.txt'' = Some ''x''"
  using baseline_first_touch [of oneFileStore "''/project/a.txt''" "''x''" False "''y''"
      "[(''/project/a.txt'', ''z''), (''/project/b.txt'', ''w''), (''/project/a.txt'', ''v'')]" "''z''"]
  by (simp add: oneFileStore_fields)




lemma normalize_top: "normalizePath ''file.ts'' = ''/project/file.ts''"
  by code_simp

lemma dirname_top: "dirname ''/project/file.ts'' = ''/project''"
  by code_simp





lemma ensureFolderLoop_keeps:
  "fm k = Some d \<Longrightarrow> ensureFolderLoop cp parts fm k = Some d"
proof (induction parts arbitrary: cp fm)
  case Nil
  then show ?case by simp
next
  case (Cons part parts)
  let ?cp = "if cp \<noteq> [] then cp @ ''/'' @ part else ''/'' @ part"
  let ?fm = "if fm ?cp = None then fm(?cp \<mapsto> Folder) else fm"
  have "?fm k = Some d" using Cons.prems by (cases "?cp = k") auto
  from Cons.IH [where fm = ?fm and cp = ?cp, OF this] show ?case by (simp add: Let_def)
qed

lemma files_addFile_leaf:
  "files (addFile fs p c) (normalizePath p) = Some (File c False)"
  by (simp add: addFile_def Let_def persistToStorage_def ensureFolderExists_def)

lemma files_addFile_keeps_files:
  "isFileEntry (files fs k) \<Longrightarrow> isFileEntry (files (addFile fs p c) k)"
  by (auto simp: addFile_def Let_def persistToStorage_def ensureFolderExists_def isFileEntry_def
      ensureFolderLoop_keeps split: option.splits Dirent.splits)


lemma startsWith_append: "startsWith (a @ b) a"
  by (induction a) simp_all

lemma startsWith_prefix: "startsWith s p \<Longrightarrow> startsWith p q \<Longrightarrow> startsWith s q"
proof (induction s p arbitrary: q rule: startsWith.induct)
  case (1 s)
  then show ?case by (cases q) simp_all
next
  case (2 p ps)
  then show ?case by simp
next
  case (3 c cs p ps)
  then show ?case by (cases q) auto
qed

lemma normalizePath_relative:
  "\<not> startsWith p ''/'' \<Longrightarrow> normalizePath p = WORK_DIR @ ''/'' @ p"
proof -
  assume rel: "\<not> startsWith p ''/''"
  have "startsWith WORK_DIR ''/''" by (simp add: WORK_DIR_def)
  with rel have "\<not> startsWith p WORK_DIR"
    using startsWith_prefix by blast
  then show ?thesis by (simp add: normalizePath_def)
qed

lemma normalizePath_rooted:
  "startsWith p WORK_DIR \<Longrightarrow> normalizePath p = p"
  by (simp add: normalizePath_def)

section \<open>Properties of the action runner\<close>

subsection \<open>How the operations change the runner\<close>

lemma map_of_setKey: "map_of (setKey kvs k v) = (map_of kvs)(k \<mapsto> v)"
  by (induction kvs) (auto simp: fun_eq_iff)

lemma updateAction_fields [simp]:
  "pendingThunks (updateAction r i upd) = pendingThunks r"
  "started (updateAction r i upd) = started r"
  "running (updateAction r i upd) = running r"
  "ended (updateAction r i upd) = ended r"
  "submittedIds (updateAction r i upd) = submittedIds r"
  by (simp_all add: updateAction_def split: option.splits)

lemma map_of_updateAction:
  "map_of (actions (updateAction r i upd)) j =
     (if j = i then map_option upd (map_of (actions r) i) else map_of (actions r) j)"
  by (auto simp: updateAction_def map_of_setKey split: option.splits)

lemma executedOf_updateAction:
  "(\<And>a. executed (upd a) = executed a) \<Longrightarrow> executedOf (updateAction r i upd) j = executedOf r j"
  by (auto simp: executedOf_def map_of_updateAction split: option.splits)

lemma executedOf_other_fields [simp]:
  "executedOf (r\<lparr>started := x\<rparr>) j = executedOf r j"
  "executedOf (r\<lparr>pendingThunks := y\<rparr>) j = executedOf r j"
  "executedOf (r\<lparr>running := z\<rparr>) j = executedOf r j"
  "executedOf (r\<lparr>ended := u\<rparr>) j = executedOf r j"
  "executedOf (r\<lparr>submittedIds := v\<rparr>) j = executedOf r j"
  by (simp_all add: executedOf_def)

lemma runner_runBody: "runner (fst (runBody w a)) = runner w"
  by (auto simp: runBody_def runFileAction_def runShellAction_def
      split: BoltAction.splits prod.splits promise.splits option.splits)

lemma runner_resumeBody: "runner (fst (resumeBody w a st r)) = runner w"
  by (auto simp: resumeBody_def split: BoltAction.splits prod.splits option.splits sum.splits)

lemma proceed_fields [simp]:
  "pendingThunks (proceed r i a pg) = pendingThunks r"
  "started (proceed r i a pg) = started r"
  "submittedIds (proceed r i a pg) = submittedIds r"
  "executedOf (proceed r i a pg) j = executedOf r j"
  by (cases pg; simp add: proceed_def executedOf_updateAction)+

lemma executeAction_runner:
  "started (runner (executeAction w i)) = started (runner w) @ [i]"
  "pendingThunks (runner (executeAction w i)) = pendingThunks (runner w)"
  "submittedIds (runner (executeAction w i)) = submittedIds (runner w)"
  "executedOf (runner (executeAction w i)) j = executedOf (runner w) j"
proof -
  let ?w0 = "w\<lparr>runner := (runner w)\<lparr>started := started (runner w) @ [i]\<rparr>\<rparr>"
  have "started (runner (executeAction w i)) = started (runner w) @ [i]
    \<and> pendingThunks (runner (executeAction w i)) = pendingThunks (runner w)
    \<and> submittedIds (runner (executeAction w i)) = submittedIds (runner w)
    \<and> executedOf (runner (executeAction w i)) j = executedOf (runner w) j"
  proof (cases "map_of (actions (runner w)) i")
    case None
    then show ?thesis by (simp add: executeAction_def Let_def)
  next
    case (Some a)
    let ?w1 = "?w0\<lparr>runner := updateAction (runner ?w0) i (\<lambda>a. a\<lparr>status := StRunning\<rparr>)\<rparr>"
    obtain w2 pg where body: "runBody ?w1 (act a) = (w2, pg)" by (cases "runBody ?w1 (act a)")
    have rw2: "runner w2 = runner ?w1"
      using runner_runBody [of ?w1 "act a"] body by simp
    have ex: "executeAction w i = w2\<lparr>runner := proceed (runner w2) i (act a) pg\<rparr>"
      using Some body by (simp add: executeAction_def Let_def)
    show ?thesis
      unfolding ex by (simp add: rw2 executedOf_updateAction)
  qed
  then show "started (runner (executeAction w i)) = started (runner w) @ [i]"
    "pendingThunks (runner (executeAction w i)) = pendingThunks (runner w)"
    "submittedIds (runner (executeAction w i)) = submittedIds (runner w)"
    "executedOf (runner (executeAction w i)) j = executedOf (runner w) j"
    by simp_all
qed

lemma resumeExecution_runner:
  "started (runner (resumeExecution w)) = started (runner w)"
  "pendingThunks (runner (resumeExecution w)) = pendingThunks (runner w)"
  "submittedIds (runner (resumeExecution w)) = submittedIds (runner w)"
  "executedOf (runner (resumeExecution w)) j = executedOf (runner w) j"
proof -
  have "started (runner (resumeExecution w)) = started (runner w)
    \<and> pendingThunks (runner (resumeExecution w)) = pendingThunks (runner w)
    \<and> submittedIds (runner (resumeExecution w)) = submittedIds (runner w)
    \<and> executedOf (runner (resumeExecution w)) j = executedOf (runner w) j"
  proof (cases "running (runner w)")
    case None
    then show ?thesis by (simp add: resumeExecution_def)
  next
    case (Some x)
    show ?thesis
    proof (cases "outcome (sandbox w) (ex_promise x)")
      case None
      with Some show ?thesis by (simp add: resumeExecution_def)
    next
      case (Some r)
      obtain w2 pg where body: "resumeBody w (ex_action x) (ex_stage x) r = (w2, pg)"
        by (cases "resumeBody w (ex_action x) (ex_stage x) r")
      have rw2: "runner w2 = runner w"
        using runner_resumeBody [of w "ex_action x" "ex_stage x" r] body by simp
      have ex: "resumeExecution w = w2\<lparr>runner := proceed (runner w2) (ex_id x) (ex_action x) pg\<rparr>"
        using \<open>running (runner w) = Some x\<close> Some body by (simp add: resumeExecution_def)
      show ?thesis
        unfolding ex by (simp add: rw2)
    qed
  qed
  then show "started (runner (resumeExecution w)) = started (runner w)"
    "pendingThunks (runner (resumeExecution w)) = pendingThunks (runner w)"
    "submittedIds (runner (resumeExecution w)) = submittedIds (runner w)"
    "executedOf (runner (resumeExecution w)) j = executedOf (runner w) j"
    by simp_all
qed

lemma runThunk_runner:
  "started (runner (runThunk w t)) = started (runner w) @ (case t of Execute i \<Rightarrow> [i] | MarkRunning i \<Rightarrow> [])"
  "pendingThunks (runner (runThunk w t)) = pendingThunks (runner w)"
  "executedOf (runner (runThunk w t)) j = executedOf (runner w) j"
  by (cases t; simp add: runThunk_def executedOf_updateAction executeAction_runner)+

lemma onceInv_event: "onceInv (runner w) \<Longrightarrow> onceInv (runner (apply_event w ev))"
proof (cases ev)
  case (EvAddAction d)
  assume inv: "onceInv (runner w)"
  show ?thesis
    unfolding onceInv_def
  proof
    fix i
    from inv have "timesScheduled (runner w) i \<le> (if executedOf (runner w) i then 1 else 0)"
      by (simp add: onceInv_def)
    then show "timesScheduled (runner (apply_event w ev)) i
        \<le> (if executedOf (runner (apply_event w ev)) i then 1 else 0)"
      using EvAddAction
      by (auto simp: addAction_def timesScheduled_def executedOf_def map_of_setKey
          split: option.splits if_splits)
  qed
next
  case (EvRunAction d)
  assume inv: "onceInv (runner w)"
  show ?thesis
    unfolding onceInv_def
  proof
    fix i
    from inv have "timesScheduled (runner w) i \<le> (if executedOf (runner w) i then 1 else 0)"
      by (simp add: onceInv_def)
    then show "timesScheduled (runner (apply_event w ev)) i
        \<le> (if executedOf (runner (apply_event w ev)) i then 1 else 0)"
      using EvRunAction
      by (auto simp: runAction_def timesScheduled_def executedOf_def map_of_updateAction Let_def
          split: option.splits if_splits)
  qed
next
  case (EvAbort j)
  assume inv: "onceInv (runner w)"
  show ?thesis
    unfolding onceInv_def
  proof
    fix i
    from inv have "timesScheduled (runner w) i \<le> (if executedOf (runner w) i then 1 else 0)"
      by (simp add: onceInv_def)
    then show "timesScheduled (runner (apply_event w ev)) i
        \<le> (if executedOf (runner (apply_event w ev)) i then 1 else 0)"
      using EvAbort
      by (simp add: abortAction_def timesScheduled_def executedOf_updateAction)
  qed
next
  case EvNextThunk
  assume inv: "onceInv (runner w)"
  show ?thesis
  proof (cases "pendingThunks (runner w)")
    case Nil
    with inv EvNextThunk show ?thesis by simp
  next
    case (Cons t ts)
    show ?thesis
    proof (cases "running (runner w) = None")
      case False
      with inv EvNextThunk Cons show ?thesis by simp
    next
      case True
      let ?start = "w\<lparr>runner := (runner w)\<lparr>pendingThunks := ts\<rparr>\<rparr>"
      have ap: "apply_event w ev = runThunk ?start t"
        using EvNextThunk Cons True by simp
      show ?thesis
        unfolding onceInv_def ap
      proof
        fix i
        from inv have "timesScheduled (runner w) i \<le> (if executedOf (runner w) i then 1 else 0)"
          by (simp add: onceInv_def)
        moreover have "executedOf (runner ?start) i = executedOf (runner w) i"
          by (simp add: executedOf_def)
        moreover have "timesScheduled (runner (runThunk ?start t)) i = timesScheduled (runner w) i"
          using Cons by (cases t) (auto simp: timesScheduled_def runThunk_runner)
        ultimately show "timesScheduled (runner (runThunk ?start t)) i
            \<le> (if executedOf (runner (runThunk ?start t)) i then 1 else 0)"
          by (simp add: runThunk_runner)
      qed
    qed
  qed
next
  case EvResume
  assume inv: "onceInv (runner w)"
  show ?thesis
    unfolding onceInv_def
  proof
    fix i
    from inv have "timesScheduled (runner w) i \<le> (if executedOf (runner w) i then 1 else 0)"
      by (simp add: onceInv_def)
    then show "timesScheduled (runner (apply_event w ev)) i
        \<le> (if executedOf (runner (apply_event w ev)) i then 1 else 0)"
      using EvResume by (simp add: timesScheduled_def resumeExecution_runner)
  qed
next
  case (EvSandbox e)
  assume "onceInv (runner w)"
  with EvSandbox show ?thesis by simp
qed

lemma onceInv_events: "onceInv (runner w) \<Longrightarrow> onceInv (runner (run_events w evs))"
  unfolding run_events_def
  by (induction evs arbitrary: w) (auto simp: onceInv_event)

lemma onceInv_new: "runner w = newActionRunner \<Longrightarrow> onceInv (runner w)"
  by (simp add: onceInv_def timesScheduled_def newActionRunner_def)

lemma scheduled_at_most_once:
  "runner w = newActionRunner \<Longrightarrow> timesScheduled (runner (run_events w evs)) i \<le> 1"
  using onceInv_events [OF onceInv_new, of w evs]
  by (auto simp: onceInv_def split: if_splits dest: spec [of _ i])

text \<open>
  Claim C7. \<^verbatim>\<open>runAction\<close> for an action whose entry has \<^verbatim>\<open>executed = true\<close>
  returns normally and leaves the runner as it was: nothing is chained. The first
  \<^verbatim>\<open>runAction\<close> for an entry sets the flag, so every later call with that id is such a
  call. From a new runner, whatever the producer, the event loop and the sandbox do, the
  execution of an id is chained at most once.
\<close>

theorem runAction_idempotent:
  "(map_of (actions r) (actionId d) = Some a \<and> executed a \<longrightarrow> runAction r d = (r, Inr ()))
   \<and> (map_of (actions r) (actionId d) = Some a \<and> actionId d' = actionId d \<longrightarrow>
        runAction (fst (runAction r d)) d' = (fst (runAction r d), Inr ()))
   \<and> (runner w = newActionRunner \<longrightarrow> timesScheduled (runner (run_events w evs)) i \<le> 1)"
proof -
  have "map_of (actions r) (actionId d) = Some a \<and> executed a \<longrightarrow> runAction r d = (r, Inr ())"
    by (simp add: runAction_def)
  moreover have "map_of (actions r) (actionId d) = Some a \<and> actionId d' = actionId d \<longrightarrow>
        runAction (fst (runAction r d)) d' = (fst (runAction r d), Inr ())"
    by (auto simp: runAction_def updateAction_def map_of_setKey Let_def)
  moreover have "runner w = newActionRunner \<longrightarrow> timesScheduled (runner (run_events w evs)) i \<le> 1"
    using scheduled_at_most_once by blast
  ultimately show ?thesis by blast
qed

lemma registered_entry:
  "map_of (actions (addAction newActionRunner (actionData a))) (actionId (actionData a)) =
     Some \<lparr>act = a, status = StPending, executed = False, abortSignal = False, act_error = None\<rparr>"
  by (simp add: addAction_def newActionRunner_def actionData_def)

theorem runAction_idempotent_witness:
  "runner emptyWorld = newActionRunner
   \<and> runAction
        (fst (runAction (addAction newActionRunner (actionData (FileAction ''a.txt'' ''x'')))
               (actionData (FileAction ''a.txt'' ''x''))))
        (actionData (FileAction ''a.txt'' ''y''))
      = (fst (runAction (addAction newActionRunner (actionData (FileAction ''a.txt'' ''x'')))
               (actionData (FileAction ''a.txt'' ''x''))), Inr ())
   \<and> timesScheduled
        (runner (run_events emptyWorld
           [EvAddAction (actionData (FileAction ''a.txt'' ''x'')),
            EvRunAction (actionData (FileAction ''a.txt'' ''x'')),
            EvRunAction (actionData (FileAction ''a.txt'' ''y'')),
            EvNextThunk, EvNextThunk,
            EvRunAction (actionData (FileAction ''a.txt'' ''x''))])) ''0'' \<le> 1"
  using runAction_idempotent
    [of "addAction newActionRunner (actionData (FileAction ''a.txt'' ''x''))"
        "actionData (FileAction ''a.txt'' ''x'')" _ "actionData (FileAction ''a.txt'' ''y'')"
        emptyWorld
        "[EvAddAction (actionData (FileAction ''a.txt'' ''x'')),
          EvRunAction (actionData (FileAction ''a.txt'' ''x'')),
          EvRunAction (actionData (FileAction ''a.txt'' ''y'')),
          EvNextThunk, EvNextThunk,
          EvRunAction (actionData (FileAction ''a.txt'' ''x''))]" "''0''"]
    registered_entry [of "FileAction ''a.txt'' ''x''"]
  by (simp add: emptyWorld_def actionData_def)

section \<open>The serial order of executions\<close>

lemma execs_simps [simp]:
  "execs [] = []"
  "execs (rs @ rs') = execs rs @ execs rs'"
  "execs [ThenMark i] = []"
  "execs [ThenExecute i q] = [ThenExecute i q]"
  "execs [CatchLog c] = [CatchLog c]"
  by (simp_all add: execs_def isExec_def)

lemma execJobs_simps [simp]:
  "execJobs [] = []"
  "execJobs (js @ js') = execJobs js @ execJobs js'"
  "execJobs ((ThenMark i, st) # js) = execJobs js"
  "execJobs ((ThenExecute i q, st) # js) = (ThenExecute i q, st) # execJobs js"
  "execJobs ((CatchLog c, st) # js) = (CatchLog c, st) # execJobs js"
  by (simp_all add: execJobs_def isExec_def)

lemma execJobs_map [simp]:
  "execJobs (map (\<lambda>r. (r, st)) rs) = map (\<lambda>r. (r, st)) (execs rs)"
  by (induction rs) (simp_all add: execJobs_def execs_def)

lemma promisesOf_simps [simp]:
  "promisesOf [] = []"
  "promisesOf (l # L) = fst (snd l) # snd (snd l) # promisesOf L"
  "promisesOf (L @ L') = promisesOf L @ promisesOf L'"
  by (simp_all add: promisesOf_def)

lemma tailOf_simps [simp]:
  "tailOf [] = 0"
  "tailOf (L @ [l]) = snd (snd l)"
  by (simp_all add: tailOf_def)

lemma tailOf_in: "L \<noteq> [] \<Longrightarrow> tailOf L \<in> set (promisesOf L)"
  by (induction L rule: rev_induct) simp_all

lemma serialTrace_simps [simp]:
  "serialTrace [] = []"
  "serialTrace (is @ js) = serialTrace is @ serialTrace js"
  "serialTrace (i # is) = Begin i # End i # serialTrace is"
  by (simp_all add: serialTrace_def)

lemma hanging_cong:
  assumes "\<And>x. x \<in> set (p # promisesOf W) \<Longrightarrow> pstate s' x = pstate s x \<and> reactions s' x = reactions s x"
  shows "hanging s' p W = hanging s p W"
  using assms
proof (induction W arbitrary: p)
  case Nil
  then show ?case by simp
next
  case (Cons l W)
  have "hanging s' (snd (snd l)) W = hanging s (snd (snd l)) W"
    by (rule Cons.IH) (use Cons.prems in auto)
  moreover have "pstate s' p = pstate s p \<and> reactions s' p = reactions s p"
    "pstate s' (fst (snd l)) = pstate s (fst (snd l)) \<and> reactions s' (fst (snd l)) = reactions s (fst (snd l))"
    "pstate s' (snd (snd l)) = pstate s (snd (snd l)) \<and> reactions s' (snd (snd l)) = reactions s (snd (snd l))"
    using Cons.prems by auto
  ultimately show ?case by simp
qed

lemma hanging_pending_tail:
  "hanging s p W \<Longrightarrow> W \<noteq> [] \<Longrightarrow> pstate s (tailOf W) = PPending"
proof (induction W arbitrary: p rule: rev_induct)
  case Nil
  then show ?case by simp
next
  case (snoc l W)
  have "hanging s p (W @ [l]) \<Longrightarrow> pstate s (snd (snd l)) = PPending" for p
    by (induction W arbitrary: p) auto
  with snoc.prems show ?case by simp
qed


lemma hanging_cong_execs:
  assumes "\<And>x. pstate s' x = pstate s x"
    and "\<And>x. execs (reactions s' x) = execs (reactions s x)"
    and "\<And>l. l \<in> set W \<Longrightarrow> reactions s' (fst (snd l)) = reactions s (fst (snd l))"
  shows "hanging s' p W = hanging s p W"
  using assms(3)
proof (induction W arbitrary: p)
  case Nil
  then show ?case by (simp add: assms(2))
next
  case (Cons l W)
  have "hanging s' (snd (snd l)) W = hanging s (snd (snd l)) W"
    by (rule Cons.IH) (use Cons.prems in auto)
  moreover have "reactions s' (fst (snd l)) = reactions s (fst (snd l))"
    using Cons.prems by simp
  ultimately show ?case by (simp add: assms(1,2))
qed

lemma tailOf_append: "R \<noteq> [] \<Longrightarrow> tailOf (D @ R) = tailOf R"
  by (simp add: tailOf_def)

lemma tailOf_Cons: "tailOf (l # W) = (if W = [] then snd (snd l) else tailOf W)"
  by (simp add: tailOf_def)

lemma tail_not_first:
  "distinct (promisesOf L) \<Longrightarrow> l \<in> set L \<Longrightarrow> fst (snd l) \<noteq> tailOf L"
proof (induction L rule: rev_induct)
  case Nil
  then show ?case by simp
next
  case (snoc l0 L)
  then show ?case
    by (cases "l = l0") (auto simp: promisesOf_def)
qed

lemma tail_fulfilled:
  assumes "pstate s 0 = PFulfilled" and "\<forall>l\<in>set D. pstate s (snd (snd l)) = PFulfilled"
  shows "pstate s (tailOf D) = PFulfilled"
  using assms by (cases "D = []") (simp_all add: tailOf_def)

lemma tail_pending:
  assumes "pstate s (snd (snd l)) = PPending" and "hanging s (snd (snd l)) W"
  shows "pstate s (tailOf (l # W)) = PPending"
  using assms hanging_pending_tail [of s "snd (snd l)" W]
  by (simp add: tailOf_Cons)

lemma schedInv_addAction:
  assumes "schedInv s"
  shows "schedInv (schedAddAction s i)"
proof (cases "known s i")
  case (Some e)
  with assms show ?thesis by (simp add: schedAddAction_def)
next
  case None
  from assms obtain D R where wf: "schedWf s" and sub: "submitted s = D @ R"
    and dn: "\<forall>l\<in>set D. pstate s (snd (snd l)) = PFulfilled" and sh: "shape s D R"
    by (auto simp: schedInv_def)
  let ?t = "tailPromise s"
  have tl: "?t = tailOf (D @ R)" using wf sub by (simp add: schedWf_def)
  show ?thesis
  proof (cases R)
    case Nil
    have tf: "pstate s ?t = PFulfilled"
      using tl Nil tail_fulfilled [OF _ dn] wf by (simp add: schedWf_def)
    let ?s' = "schedAddAction s i"
    have eq: "?s' = s\<lparr>known := (known s)(i \<mapsto> False), jobs := jobs s @ [(ThenMark i, PFulfilled)],
                      nextFresh := nextFresh s + 1\<rparr>"
      using None tf by (simp add: schedAddAction_def attach_def Let_def)
    have wf': "schedWf ?s'"
      unfolding eq using wf by (auto simp: schedWf_def)
    have sh': "shape ?s' D R"
      unfolding eq using sh Nil by simp
    show ?thesis
      unfolding schedInv_def using wf' sh' dn sub
      by (intro conjI exI [of _ D] exI [of _ R]) (simp_all add: eq)
  next
    case (Cons l W)
    have tp: "pstate s ?t = PPending"
      using tl Cons sh tail_pending [of s l W] by (simp add: tailOf_append)
    let ?s' = "schedAddAction s i"
    have eq: "?s' = s\<lparr>known := (known s)(i \<mapsto> False),
                      reactions := (reactions s)(?t := reactions s ?t @ [ThenMark i]),
                      nextFresh := nextFresh s + 1\<rparr>"
      using None tp by (simp add: schedAddAction_def attach_def Let_def)
    have dist: "distinct (promisesOf (D @ R))" using wf sub by (simp add: schedWf_def)
    have tin: "?t \<in> set (promisesOf (D @ R))"
      using tl Cons tailOf_in [of "D @ R"] by simp
    then have tlt: "?t < nextFresh s" using wf sub by (auto simp: schedWf_def)
    have wf': "schedWf ?s'"
      unfolding eq using wf tlt by (auto simp: schedWf_def)
    have nq: "\<And>l'. l' \<in> set (D @ R) \<Longrightarrow> fst (snd l') \<noteq> ?t"
      using tail_not_first [OF dist] tl by simp
    have hg: "hanging ?s' (snd (snd l)) W = hanging s (snd (snd l)) W"
      unfolding eq
      by (rule hanging_cong_execs) (use nq Cons in auto)
    have st: "stage ?s' (map fst D) (fst l) (fst (snd l)) (snd (snd l))
        = stage s (map fst D) (fst l) (fst (snd l)) (snd (snd l))"
      unfolding eq using nq [of l] Cons by (simp add: stage_def)
    have sh': "shape ?s' D R"
      using sh Cons hg st by (simp add: eq)
    show ?thesis
      unfolding schedInv_def using wf' sh' dn sub
      by (intro conjI exI [of _ D] exI [of _ R]) (simp_all add: eq)
  qed
qed


lemma distinct_active:
  assumes "distinct (promisesOf (D @ l # W))"
  shows "fst (snd l) \<noteq> snd (snd l)"
    and "fst (snd l) \<notin> set (promisesOf W)" and "snd (snd l) \<notin> set (promisesOf W)"
    and "fst (snd l) \<notin> set (promisesOf D)" and "snd (snd l) \<notin> set (promisesOf D)"
  using assms by auto

lemma done_promises: "l \<in> set D \<Longrightarrow> snd (snd l) \<in> set (promisesOf D)"
  by (induction D) auto

lemma schedInv_finish:
  assumes "schedInv s"
  shows "schedInv (schedFinish s i ok)"
proof -
  from assms obtain D R where wf: "schedWf s" and sub: "submitted s = D @ R"
    and dn: "\<forall>l\<in>set D. pstate s (snd (snd l)) = PFulfilled" and sh: "shape s D R"
    by (auto simp: schedInv_def)
  show ?thesis
  proof (cases "find (\<lambda>f. fst f = i) (frames s)")
    case None
    with assms show ?thesis by (simp add: schedFinish_def)
  next
    case (Some f)
    then have fne: "frames s \<noteq> []" by (cases "frames s") auto
    then obtain l W where R: "R = l # W" using sh by (cases R) auto
    let ?i = "fst l" and ?q = "fst (snd l)" and ?c = "snd (snd l)"
    from sh R fne have st: "pstate s ?q = PPending" "reactions s ?q = [CatchLog ?c]"
      "frames s = [(?i, ?q)]" "execJobs (jobs s) = []"
      "trace s = serialTrace (map fst D) @ [Begin ?i]"
      and pc: "pstate s ?c = PPending" and hg: "hanging s ?c W"
      by (auto simp: stage_def)
    from Some st(3) have f: "f = (?i, ?q)" and i: "i = ?i"
      by (auto split: if_splits)
    let ?st = "if ok then PFulfilled else PRejected"
    let ?s' = "s\<lparr>frames := [], trace := trace s @ [End ?i],
                      pstate := (pstate s)(?q := ?st),
                      jobs := jobs s @ [(CatchLog ?c, ?st)],
                      reactions := (reactions s)(?q := [])\<rparr>"
    have eq: "schedFinish s i ok = ?s'"
      using Some f st(2,3) i by (simp add: schedFinish_def settlePromise_def)
    have dist: "distinct (promisesOf (D @ l # W))" using wf sub R by (simp add: schedWf_def)
    note da = distinct_active [OF dist]
    have qb: "0 < ?q \<and> ?q < nextFresh s" using wf sub R by (simp add: schedWf_def)
    have wf': "schedWf ?s'"
      using wf qb by (auto simp: schedWf_def)
    have "hanging ?s' ?c W = hanging s ?c W"
      by (rule hanging_cong) (use da in auto)
    with hg have hg': "hanging ?s' ?c W" by simp
    have dn': "\<forall>l'\<in>set D. pstate ?s' (snd (snd l')) = PFulfilled"
      using dn da(4) done_promises by auto
    have stg': "stage ?s' (map fst D) ?i ?q ?c"
      using st by (simp add: stage_def)
    have pc': "pstate ?s' ?c = PPending"
      using pc da(1) by simp
    have sh': "shape ?s' D R"
      unfolding R using hg' pc' stg' by simp
    have sub': "submitted ?s' = D @ R" using sub by simp
    show ?thesis
      unfolding schedInv_def eq using wf' sh' dn' sub' by blast
  qed
qed

lemma schedInv_job:
  assumes "schedInv s"
  shows "schedInv (schedJob s)"
proof (cases "jobs s")
  case Nil
  with assms show ?thesis by (simp add: schedJob_def)
next
  case (Cons j js)
  obtain r st where j: "j = (r, st)" by (cases j)
  from assms obtain D R where wf: "schedWf s" and sub: "submitted s = D @ R"
    and dn: "\<forall>l\<in>set D. pstate s (snd (snd l)) = PFulfilled" and sh: "shape s D R"
    by (auto simp: schedInv_def)
  show ?thesis
  proof (cases "isExec r")
    case False
    then obtain i where r: "r = ThenMark i" by (cases r) (simp_all add: isExec_def)
    let ?s' = "schedJob s"
    have eq: "?s' = s\<lparr>jobs := js\<rparr>"
      using Cons j r by (simp add: schedJob_def runJob_def)
    have ej: "execJobs js = execJobs (jobs s)" using Cons j r by simp
    have wf': "schedWf ?s'" unfolding eq using wf by (simp add: schedWf_def)
    have hg: "hanging ?s' p W = hanging s p W" for p W
      unfolding eq by (rule hanging_cong) simp
    have sh': "shape ?s' D R"
      using sh ej hg by (cases R) (simp_all add: eq stage_def)
    show ?thesis
      unfolding schedInv_def using wf' sh' dn sub
      by (intro conjI exI [of _ D] exI [of _ R]) (simp_all add: eq)
  next
    case True
    then have ej: "execJobs (jobs s) = (r, st) # execJobs js"
      using Cons j by (simp add: execJobs_def)
    then obtain l W where R: "R = l # W" using sh by (cases R) auto
    let ?i = "fst l" and ?q = "fst (snd l)" and ?c = "snd (snd l)"
    from sh R have pc: "pstate s ?c = PPending" and hg: "hanging s ?c W"
      and stg: "stage s (map fst D) ?i ?q ?c" by simp_all
    have dist: "distinct (promisesOf (D @ l # W))" using wf sub R by (simp add: schedWf_def)
    note da = distinct_active [OF dist]
    have cb: "0 < ?c \<and> ?c < nextFresh s" using wf sub R by (simp add: schedWf_def)
    from stg ej consider
      (starts) "r = ThenExecute ?i ?q" "st = PFulfilled" "execJobs js = []"
        "pstate s ?q = PPending" "reactions s ?q = [CatchLog ?c]" "frames s = []"
        "trace s = serialTrace (map fst D)"
      | (caught) "r = CatchLog ?c" "st = pstate s ?q" "execJobs js = []"
        "pstate s ?q \<noteq> PPending" "frames s = []"
        "trace s = serialTrace (map fst D) @ [Begin ?i, End ?i]"
      by (auto simp: stage_def)
    then show ?thesis
    proof cases
      case starts
      let ?s' = "schedJob s"
      have eq: "?s' = s\<lparr>jobs := js, frames := [(?i, ?q)], trace := trace s @ [Begin ?i]\<rparr>"
        using Cons j starts by (simp add: schedJob_def runJob_def)
      have wf': "schedWf ?s'" unfolding eq using wf by (simp add: schedWf_def)
      have "hanging ?s' ?c W = hanging s ?c W"
        unfolding eq by (rule hanging_cong) simp
      with hg have hg': "hanging ?s' ?c W" by simp
      have sh': "shape ?s' D R"
        unfolding R using hg' pc starts by (simp add: stage_def eq)
      show ?thesis
        unfolding schedInv_def using wf' sh' dn sub
        by (intro conjI exI [of _ D] exI [of _ R]) (simp_all add: eq)
    next
      case caught
      let ?s' = "schedJob s"
      have eq: "?s' = s\<lparr>jobs := js @ map (\<lambda>r. (r, PFulfilled)) (reactions s ?c),
                        pstate := (pstate s)(?c := PFulfilled),
                        reactions := (reactions s)(?c := [])\<rparr>"
        using Cons j caught by (simp add: schedJob_def runJob_def settlePromise_def)
      have wf': "schedWf ?s'"
        unfolding eq using wf cb by (auto simp: schedWf_def)
      have sub': "submitted ?s' = (D @ [l]) @ W" using sub R by (simp add: eq)
      have dn': "\<forall>l'\<in>set (D @ [l]). pstate ?s' (snd (snd l')) = PFulfilled"
        unfolding eq using dn by auto
      have sh': "shape ?s' (D @ [l]) W"
      proof (cases W)
        case Nil
        with hg have "execs (reactions s ?c) = []" by simp
        then show ?thesis
          using Nil caught by (simp add: eq)
      next
        case (Cons l1 W1)
        let ?q1 = "fst (snd l1)" and ?c1 = "snd (snd l1)"
        from hg Cons have h: "execs (reactions s ?c) = [ThenExecute (fst l1) ?q1]"
          "pstate s ?q1 = PPending" "reactions s ?q1 = [CatchLog ?c1]"
          "pstate s ?c1 = PPending" "hanging s ?c1 W1"
          by simp_all
        have ne: "?q1 \<noteq> ?c" "?c1 \<noteq> ?c" "?c \<notin> set (promisesOf W1)"
          using da(3) Cons by auto
        have "hanging ?s' ?c1 W1 = hanging s ?c1 W1"
          unfolding eq by (rule hanging_cong) (use ne in auto)
        with h(5) have hg1: "hanging ?s' ?c1 W1" by simp
        show ?thesis
          unfolding Cons using hg1 h ne caught
          by (simp add: stage_def eq)
      qed
      show ?thesis
        unfolding schedInv_def using wf' sh' dn' sub'
        by (intro conjI exI [of _ "D @ [l]"] exI [of _ W]) simp_all
    qed
  qed
qed


lemma hanging_snoc:
  assumes "hanging s p W"
    and "pstate s' = pstate s"
    and "reactions s' = ((reactions s)(t := reactions s t @ [ThenExecute i q]))(q := [CatchLog c])"
    and "t = (if W = [] then p else tailOf W)"
    and "pstate s q = PPending" and "pstate s c = PPending" and "reactions s c = []"
    and "q \<notin> set (p # promisesOf W)" and "c \<notin> set (p # promisesOf W)" and "q \<noteq> c"
    and "distinct (p # promisesOf W)"
  shows "hanging s' p (W @ [(i, q, c)])"
  using assms(1,4,8,9,11)
proof (induction W arbitrary: p)
  case Nil
  then show ?case
    using assms(2,3,5,6,7,10) by auto
next
  case (Cons l W)
  let ?q = "fst (snd l)" and ?c = "snd (snd l)"
  from Cons.prems(1) have h: "execs (reactions s p) = [ThenExecute (fst l) ?q]"
    "pstate s ?q = PPending" "reactions s ?q = [CatchLog ?c]" "pstate s ?c = PPending"
    "hanging s ?c W"
    by simp_all
  have t: "t = (if W = [] then ?c else tailOf W)"
    using Cons.prems(2) by (simp add: tailOf_Cons)
  have tin: "t \<in> set (?c # promisesOf W)"
    using t tailOf_in [of W] by auto
  have pt: "p \<noteq> t" "?q \<noteq> t"
    using tin Cons.prems(5) by auto
  have ih: "hanging s' ?c (W @ [(i, q, c)])"
    by (rule Cons.IH) (use h(5) t Cons.prems in auto)
  have "reactions s' p = reactions s p" "reactions s' ?q = reactions s ?q"
    using pt Cons.prems(3) assms(3) by auto
  then show ?case
    using h ih assms(2) by simp
qed

lemma schedWf_extend:
  assumes "schedWf s"
    and "pstate s' = pstate s"
    and "\<And>p. nextFresh s + 2 \<le> p \<Longrightarrow> reactions s' p = []"
    and "nextFresh s' = nextFresh s + 2"
    and "tailPromise s' = nextFresh s + 1"
    and "submitted s' = submitted s @ [(i, nextFresh s, nextFresh s + 1)]"
  shows "schedWf s'"
proof -
  from assms(1) have nf: "0 < nextFresh s" and p0: "pstate s 0 = PFulfilled"
    and un: "\<And>p. nextFresh s \<le> p \<Longrightarrow> pstate s p = PPending"
    and bd: "\<And>p. p \<in> set (promisesOf (submitted s)) \<Longrightarrow> 0 < p \<and> p < nextFresh s"
    and di: "distinct (promisesOf (submitted s))"
    by (auto simp: schedWf_def)
  have n1: "nextFresh s \<notin> set (promisesOf (submitted s))"
    "Suc (nextFresh s) \<notin> set (promisesOf (submitted s))"
    using bd by fastforce+
  have a: "0 < nextFresh s'" using assms(4) by simp
  have b: "pstate s' 0 = PFulfilled" using assms(2) p0 by simp
  have c: "\<forall>p. nextFresh s' \<le> p \<longrightarrow> pstate s' p = PPending \<and> reactions s' p = []"
    using assms(2,3,4) un by simp
  have d: "\<forall>p\<in>set (promisesOf (submitted s')). 0 < p \<and> p < nextFresh s'"
    using assms(4,6) bd nf by fastforce
  have e: "distinct (promisesOf (submitted s'))"
    using assms(6) di n1 by simp
  have f: "tailPromise s' = tailOf (submitted s')"
    using assms(5,6) by simp
  from a b c d e f show ?thesis by (simp add: schedWf_def)
qed

lemma schedInv_runAction:
  assumes "schedInv s"
  shows "schedInv (schedRunAction s i)"
proof (cases "known s i = Some False")
  case False
  with assms show ?thesis
    by (cases "known s i") (auto simp: schedRunAction_def)
next
  case True
  from assms obtain D R where wf: "schedWf s" and sub: "submitted s = D @ R"
    and dn: "\<forall>l\<in>set D. pstate s (snd (snd l)) = PFulfilled" and sh: "shape s D R"
    by (auto simp: schedInv_def)
  let ?t = "tailPromise s" and ?q = "nextFresh s" and ?c = "nextFresh s + 1"
  have tl: "?t = tailOf (D @ R)" using wf sub by (simp add: schedWf_def)
  have fresh: "pstate s ?q = PPending" "reactions s ?q = []" "pstate s ?c = PPending"
    "reactions s ?c = []" "0 < ?q"
    using wf by (simp_all add: schedWf_def)
  have old: "\<And>p. p \<in> set (promisesOf (D @ R)) \<Longrightarrow> p < ?q \<and> 0 < p"
    using wf sub by (auto simp: schedWf_def)
  have dist: "distinct (promisesOf (D @ R))" using wf sub by (simp add: schedWf_def)
  have tlt: "?t < ?q"
  proof (cases "D @ R = []")
    case True
    then show ?thesis using tl fresh(5) by simp
  next
    case False
    then show ?thesis using tl tailOf_in [of "D @ R"] old by auto
  qed
  show ?thesis
  proof (cases R)
    case Nil
    have tf: "pstate s ?t = PFulfilled"
      using tl Nil tail_fulfilled [OF _ dn] wf by (simp add: schedWf_def)
    let ?s' = "s\<lparr>known := (known s)(i \<mapsto> True),
                  jobs := jobs s @ [(ThenExecute i ?q, PFulfilled)],
                  reactions := (reactions s)(?q := [CatchLog ?c]),
                  tailPromise := ?c, nextFresh := ?c + 1,
                  submitted := submitted s @ [(i, ?q, ?c)]\<rparr>"
    have eq: "schedRunAction s i = ?s'"
      using True tf fresh by (simp add: schedRunAction_def attach_def Let_def)
    have wf': "schedWf ?s'"
      by (rule schedWf_extend [OF wf, where i = i]) (use wf in \<open>simp_all add: schedWf_def\<close>)
    have sh': "shape ?s' D [(i, ?q, ?c)]"
      using sh Nil fresh by (simp add: stage_def)
    have sub': "submitted ?s' = D @ [(i, ?q, ?c)]" using sub Nil by simp
    have dn': "\<forall>l\<in>set D. pstate ?s' (snd (snd l)) = PFulfilled" using dn by simp
    show ?thesis
      unfolding schedInv_def eq using wf' sh' dn' sub' by blast
  next
    case (Cons l W)
    let ?ql = "fst (snd l)" and ?cl = "snd (snd l)"
    from sh Cons have pc: "pstate s ?cl = PPending" and hg: "hanging s ?cl W"
      and stg: "stage s (map fst D) (fst l) ?ql ?cl" by simp_all
    have tp: "pstate s ?t = PPending"
      using tl Cons pc hg tail_pending [of s l W] by (simp add: tailOf_append)
    have tq: "?t \<noteq> ?q" using tlt by simp
    let ?s' = "s\<lparr>known := (known s)(i \<mapsto> True),
                  reactions := ((reactions s)(?t := reactions s ?t @ [ThenExecute i ?q]))(?q := [CatchLog ?c]),
                  tailPromise := ?c, nextFresh := ?c + 1,
                  submitted := submitted s @ [(i, ?q, ?c)]\<rparr>"
    have eq: "schedRunAction s i = ?s'"
      using True tp tq fresh by (simp add: schedRunAction_def attach_def Let_def)
    have wf': "schedWf ?s'"
      by (rule schedWf_extend [OF wf, where i = i]) (use wf tlt in \<open>simp_all add: schedWf_def\<close>)
    have dl: "distinct (?cl # promisesOf W)" "?ql \<noteq> ?cl"
      using dist Cons by auto
    have tW: "?t = (if W = [] then ?cl else tailOf W)"
      using tl Cons by (simp add: tailOf_append tailOf_Cons)
    have nin: "?q \<notin> set (?cl # promisesOf W)" "?c \<notin> set (?cl # promisesOf W)"
      using old Cons by fastforce+
    have hg': "hanging ?s' ?cl (W @ [(i, ?q, ?c)])"
      by (rule hanging_snoc [OF hg _ _ tW fresh(1,3,4) nin _ dl(1)]) simp_all
    have qlt: "?ql \<noteq> ?t"
      using tail_not_first [OF dist, of l] tl Cons by simp
    have qlq: "?ql \<noteq> ?q" using old [of ?ql] Cons by auto
    have stg': "stage ?s' (map fst D) (fst l) ?ql ?cl"
      using stg qlt qlq by (simp add: stage_def)
    have sh': "shape ?s' D (l # W @ [(i, ?q, ?c)])"
      using pc hg' stg' by simp
    have sub': "submitted ?s' = D @ (l # W @ [(i, ?q, ?c)])" using sub Cons by simp
    have dn': "\<forall>l\<in>set D. pstate ?s' (snd (snd l)) = PFulfilled" using dn by simp
    show ?thesis
      unfolding schedInv_def eq using wf' sh' dn' sub' by blast
  qed
qed

lemma schedInv_init: "schedInv initSched"
  by (simp add: schedInv_def schedWf_def initSched_def)

lemma schedInv_step: "schedInv s \<Longrightarrow> schedInv (schedStep s l)"
  by (cases l) (simp_all add: schedInv_addAction schedInv_runAction schedInv_job schedInv_finish)

lemma schedInv_run: "schedInv (schedRun ls)"
proof -
  have "schedInv s \<Longrightarrow> schedInv (foldl schedStep s ls)" for s
    by (induction ls arbitrary: s) (simp_all add: schedInv_step)
  then show ?thesis by (simp add: schedRun_def schedInv_init)
qed


text \<open>
  Claim C1. Whatever the producer calls and whenever the executions come to their end,
  at every moment at most one execution of the runner has begun and not ended, and the
  begins and ends so far are, in this order, a beginning of the serial trace of the
  submitted executions in submission order: an execution begins only after every
  execution submitted before it has ended.
\<close>

theorem executions_serialized:
  "length (frames (schedRun ls)) \<le> 1
   \<and> prefix (trace (schedRun ls)) (serialTrace (map fst (submitted (schedRun ls))))"
proof -
  let ?s = "schedRun ls"
  from schedInv_run [of ls] obtain D R where sub: "submitted ?s = D @ R" and sh: "shape ?s D R"
    by (auto simp: schedInv_def)
  show ?thesis
  proof (cases R)
    case Nil
    with sh sub show ?thesis by simp
  next
    case (Cons l W)
    with sh have "stage ?s (map fst D) (fst l) (fst (snd l)) (snd (snd l))" by simp
    then show ?thesis
      unfolding stage_def using sub Cons by (auto simp: prefix_def)
  qed
qed

theorem executions_serialized_witness:
  "length (frames (schedRun lateFinishRun)) \<le> 1
   \<and> prefix (trace (schedRun lateFinishRun)) (serialTrace (map fst (submitted (schedRun lateFinishRun))))"
  using executions_serialized [of lateFinishRun] by simp

lemma lateFinishRun_trace:
  "trace (schedRun lateFinishRun) = [Begin ''a'', End ''a'', Begin ''b'', End ''b'']
   \<and> map fst (submitted (schedRun lateFinishRun)) = [''a'', ''b'']"
  by code_simp

end
